theory Spec2Isabelle
  imports Complex_Main "HOL-Library.Log_Nat"
begin

section \<open>Numbers\<close>

text \<open>
  The game is a React component written in TypeScript. Its numbers are JavaScript
  numbers, that is IEEE binary64. Counters (knives, score, coins, stage, streak day) are
  modelled as \<open>int\<close>, angles as \<open>real\<close>. The angles of the apples are computed as the
  code computes them, every operation rounded to binary64 (\<open>round64\<close> below), since a
  claim is about their exact values. The rotation of the board and the hit angles are
  computed over the reals, without rounding.

  The JavaScript remainder \<open>a % b\<close> truncates the quotient towards zero, so the result has
  the sign of \<open>a\<close>.
\<close>

definition trunc :: "real \<Rightarrow> int" where
  "trunc x = (if 0 \<le> x then \<lfloor>x\<rfloor> else \<lceil>x\<rceil>)"

definition jsmod :: "real \<Rightarrow> real \<Rightarrow> real" where
  "jsmod a b = a - b * real_of_int (trunc (a / b))"

definition jsrem :: "int \<Rightarrow> int \<Rightarrow> int" where
  "jsrem a b = sgn a * (\<bar>a\<bar> mod \<bar>b\<bar>)"

subsection \<open>Rounding to binary64\<close>

text \<open>
  A binary64 number is a multiple of \<open>2 ^ (e - 52)\<close>, where \<open>e\<close> is its binary exponent,
  and of \<open>2 ^ (- 1074)\<close> at least (the subnormal numbers). An arithmetic operation of
  JavaScript yields the exact result rounded to the nearest such number, a tie going to
  the even multiple. Results beyond the largest binary64 number do not arise in this
  program and overflow is not modelled. The remainder \<open>%\<close> of two binary64 numbers is
  exact.
\<close>

definition emin :: nat where
  "emin = 1074"

text \<open>The binary exponent \<open>\<lfloor>log\<^sub>2 |x|\<rfloor>\<close>, computed on the integer part of \<open>|x| * 2 ^ 1074\<close>.\<close>

definition expo :: "real \<Rightarrow> int" where
  "expo x = int (floorlog 2 (nat \<lfloor>\<bar>x\<bar> * 2 ^ emin\<rfloor>)) - int emin - 1"

text \<open>The distance between the binary64 numbers next to \<open>x\<close>.\<close>

definition ulp :: "real \<Rightarrow> real" where
  "ulp x = 2 powi (max (expo x - 52) (- int emin))"

text \<open>The nearest integer, a tie going to the even one.\<close>

definition roundEven :: "real \<Rightarrow> int" where
  "roundEven y =
    (let f = \<lfloor>y\<rfloor>; d = y - real_of_int f
     in if d < 1 / 2 then f else if 1 / 2 < d then f + 1 else if even f then f else f + 1)"

definition round64 :: "real \<Rightarrow> real" where
  "round64 x = real_of_int (roundEven (x / ulp x)) * ulp x"

section \<open>Game configuration\<close>

definition BASE_KNIVES :: int where "BASE_KNIVES = 10"
definition BASE_APPLES :: int where "BASE_APPLES = 10"
definition ROTATION_SPEED :: real where "ROTATION_SPEED = 3 / 2"
definition COLLISION_GAP :: real where "COLLISION_GAP = 18"
definition APPLE_GAP :: real where "APPLE_GAP = 15"

record BossData =
  boss_stage :: int
  boss_name :: string
  boss_color :: string
  boss_bgColor :: string
  boss_knives :: int
  boss_apples :: int
  boss_speed :: real
  boss_reward :: int

definition BOSSES :: "BossData list" where
  "BOSSES =
    [\<lparr>boss_stage = 5, boss_name = ''CHEESE BOSS'', boss_color = ''#FFD700'',
      boss_bgColor = ''#FFA000'', boss_knives = 12, boss_apples = 8, boss_speed = 2,
      boss_reward = 200\<rparr>,
     \<lparr>boss_stage = 10, boss_name = ''WATERMELON'', boss_color = ''#4CAF50'',
      boss_bgColor = ''#2E7D32'', boss_knives = 14, boss_apples = 6, boss_speed = 22 / 10,
      boss_reward = 300\<rparr>,
     \<lparr>boss_stage = 15, boss_name = ''CAKE BOSS'', boss_color = ''#E91E63'',
      boss_bgColor = ''#C2185B'', boss_knives = 15, boss_apples = 5, boss_speed = 25 / 10,
      boss_reward = 400\<rparr>,
     \<lparr>boss_stage = 20, boss_name = ''ORANGE BOSS'', boss_color = ''#FF9800'',
      boss_bgColor = ''#F57C00'', boss_knives = 16, boss_apples = 4, boss_speed = 28 / 10,
      boss_reward = 500\<rparr>,
     \<lparr>boss_stage = 25, boss_name = ''DIAMOND'', boss_color = ''#00BCD4'',
      boss_bgColor = ''#0097A7'', boss_knives = 18, boss_apples = 3, boss_speed = 3,
      boss_reward = 1000\<rparr>]"

definition DAILY_REWARDS :: "int list" where
  "DAILY_REWARDS = [50, 100, 150, 200, 300, 500, 1000]"

section \<open>Types\<close>

datatype GameState = Ready | Playing | Failed | Win | Boss_intro

record AppleData =
  apple_id :: int
  angle :: real
  visible :: bool

text \<open>
  The state variables of the component \<open>KnifeHitGame\<close> (its \<open>useState\<close> cells and the
  ref \<open>rotationRef\<close>). The sound manager, the fly animation value and the style sheet
  hold no game data and are left out.
\<close>

record game =
  rotation :: real
  stuckKnives :: "real list"
  apples :: "AppleData list"
  explosions :: "real list"
  knivesLeft :: int
  gameState :: GameState
  stage :: int
  score :: int
  applesHit :: int
  isThrowing :: bool
  hasUsedContinue :: bool
  currentBoss :: "BossData option"
  isBossLevel :: bool
  coins :: int
  highScore :: int
  showCoinPopup :: bool
  coinPopupAmount :: int
  showDailyReward :: bool
  rewardDay :: int
  dailyRewardAmount :: int
  rotationRef :: real

text \<open>The values of the \<open>useState\<close> initialisers.\<close>

definition initialGame :: game where
  "initialGame =
    \<lparr>rotation = 0, stuckKnives = [], apples = [], explosions = [],
     knivesLeft = BASE_KNIVES, gameState = Ready, stage = 1, score = 0, applesHit = 0,
     isThrowing = False, hasUsedContinue = False, currentBoss = None,
     isBossLevel = False, coins = 0, highScore = 0, showCoinPopup = False,
     coinPopupAmount = 0, showDailyReward = False, rewardDay = 1,
     dailyRewardAmount = 50, rotationRef = 0\<rparr>"

section \<open>Persistent storage\<close>

text \<open>
  What \<open>AsyncStorage\<close> holds under the four keys the game reads; \<open>None\<close> is a missing
  key. \<open>loadData\<close> returns the stored value, or the default of the caller for a missing
  key. Writing to the store (\<open>saveData\<close>) is fire-and-forget and is not modelled.
\<close>

record storage =
  st_coins :: "int option"
  st_highScore :: "int option"
  st_lastRewardDate :: "string option"
  st_rewardDay :: "int option"

definition loadData :: "'a option \<Rightarrow> 'a \<Rightarrow> 'a" where
  "loadData stored defaultValue = (case stored of None \<Rightarrow> defaultValue | Some v \<Rightarrow> v)"

text \<open>
  \<open>DAILY_REWARDS[(day - 1) % DAILY_REWARDS.length]\<close>. An index outside the table reads
  \<open>undefined\<close> in JavaScript; that is \<open>None\<close> here.
\<close>

definition dailyRewardFor :: "int \<Rightarrow> int option" where
  "dailyRewardFor day =
    (let i = jsrem (day - 1) (int (length DAILY_REWARDS))
     in if 0 \<le> i \<and> i < int (length DAILY_REWARDS) then Some (DAILY_REWARDS ! nat i)
        else None)"

text \<open>
  \<open>loadSavedData\<close>, the continuation that runs once the four reads have returned.
  \<open>today\<close> is \<open>new Date().toDateString()\<close>. The result is \<open>None\<close> when the reward read
  from the table is \<open>undefined\<close>: the balance would become \<open>NaN\<close> at the claim, which
  the integers of this model do not have.
\<close>

definition loadSavedData :: "storage \<Rightarrow> string \<Rightarrow> game \<Rightarrow> game option" where
  "loadSavedData st today s =
    (let savedCoins = loadData (st_coins st) 0;
         savedHighScore = loadData (st_highScore st) 0;
         lastRewardDate = st_lastRewardDate st;
         savedRewardDay = loadData (st_rewardDay st) 1;
         s1 = s\<lparr>coins := savedCoins, highScore := savedHighScore,
                rewardDay := savedRewardDay\<rparr>
     in if lastRewardDate \<noteq> Some today then
          (case dailyRewardFor savedRewardDay of
             None \<Rightarrow> None
           | Some reward \<Rightarrow>
               Some (s1\<lparr>dailyRewardAmount := reward, showDailyReward := True\<rparr>))
        else Some s1)"

section \<open>Angles and targets\<close>

text \<open>
  The distance test that \<open>throwKnife\<close> writes out twice:
  \<open>let diff = Math.abs(a - b); if (diff > 180) diff = 360 - diff\<close>.
\<close>

definition angleDiff :: "real \<Rightarrow> real \<Rightarrow> real" where
  "angleDiff a b = (let diff = \<bar>a - b\<bar> in if diff > 180 then 360 - diff else diff)"

text \<open>
  \<open>generateApples\<close>; \<open>rnd\<close> is the value of \<open>Math.random()\<close>, a binary64 number in
  \<open>[0, 1)\<close>. The division \<open>360 / count\<close>, the two products and the sum are each rounded
  to binary64, as in
  \<open>offset = Math.random() * (360 / count)\<close> and \<open>(offset + i * (360 / count)) % 360\<close>.
\<close>

definition generateApples :: "real \<Rightarrow> int \<Rightarrow> AppleData list" where
  "generateApples rnd count =
    (let offset = round64 (rnd * round64 (360 / real_of_int count))
     in map (\<lambda>i. \<lparr>apple_id = int i,
                   angle = jsmod (round64 (offset
                                   + round64 (real i * round64 (360 / real_of_int count))))
                                 360,
                   visible = True\<rparr>)
            [0..<nat count])"

definition getBossForStage :: "int \<Rightarrow> BossData option" where
  "getBossForStage stageNum = find (\<lambda>b. boss_stage b = stageNum) BOSSES"

section \<open>Round initialisation\<close>

definition initGame :: "real \<Rightarrow> int \<Rightarrow> game \<Rightarrow> game" where
  "initGame rnd stageNum s =
    (case getBossForStage stageNum of
       Some boss \<Rightarrow>
         s\<lparr>currentBoss := Some boss, isBossLevel := True, gameState := Boss_intro\<rparr>
     | None \<Rightarrow>
         s\<lparr>currentBoss := None, isBossLevel := False,
           apples := generateApples rnd BASE_APPLES, stuckKnives := [],
           explosions := [], knivesLeft := BASE_KNIVES, applesHit := 0,
           hasUsedContinue := False, rotation := 0, rotationRef := 0,
           isThrowing := False, gameState := Playing\<rparr>)"

definition startBossLevel :: "real \<Rightarrow> game \<Rightarrow> game" where
  "startBossLevel rnd s =
    (case currentBoss s of
       None \<Rightarrow> s
     | Some boss \<Rightarrow>
         s\<lparr>apples := generateApples rnd (boss_apples boss), stuckKnives := [],
           explosions := [], knivesLeft := boss_knives boss, applesHit := 0,
           hasUsedContinue := False, rotation := 0, rotationRef := 0,
           isThrowing := False, gameState := Playing\<rparr>)"

text \<open>One turn of the rotation loop (a \<open>requestAnimationFrame\<close> callback).\<close>

definition rotationLoop :: "game \<Rightarrow> game" where
  "rotationLoop s =
    (let baseSpeed =
           (case currentBoss s of
              Some boss \<Rightarrow> if isBossLevel s then boss_speed boss else ROTATION_SPEED
            | None \<Rightarrow> ROTATION_SPEED);
         speed = baseSpeed + (real_of_int (stage s) - 1) * (1 / 10);
         r = jsmod (rotationRef s + speed) 360
     in s\<lparr>rotationRef := r, rotation := r\<rparr>)"

definition showCoinGain :: "int \<Rightarrow> game \<Rightarrow> game" where
  "showCoinGain amount s = s\<lparr>coinPopupAmount := amount, showCoinPopup := True\<rparr>"

section \<open>Throwing a knife\<close>

text \<open>
  \<open>throwKnife\<close> runs in three parts, at three different times: the body of the function
  at the tap, the completion callback of the 100 ms fly animation, and the callback of
  the 100 ms \<open>setTimeout\<close> that credits the win. The two callbacks are closures: they
  see \<open>stuckKnives\<close>, \<open>apples\<close>, \<open>isBossLevel\<close> and \<open>currentBoss\<close> as they were when
  the tap was handled, and \<open>hitAngle\<close> as computed then. The functional updates
  (\<open>setScore((s) => ...)\<close> and the like) act on the state at the time they run.
\<close>

record flight =
  fl_stuckKnives :: "real list"
  fl_apples :: "AppleData list"
  fl_isBossLevel :: bool
  fl_currentBoss :: "BossData option"
  fl_hitAngle :: real

record winTimer =
  wt_isBossLevel :: bool
  wt_currentBoss :: "BossData option"

text \<open>The tap: the guard, then the animation is started. \<open>None\<close> is a rejected tap.\<close>

definition throwKnife :: "game \<Rightarrow> game \<times> flight option" where
  "throwKnife s =
    (if gameState s \<noteq> Playing \<or> knivesLeft s \<le> 0 \<or> isThrowing s then (s, None)
     else (s\<lparr>isThrowing := True\<rparr>,
           Some \<lparr>fl_stuckKnives = stuckKnives s, fl_apples = apples s,
                 fl_isBossLevel = isBossLevel s, fl_currentBoss = currentBoss s,
                 fl_hitAngle = jsmod (180 - rotationRef s + 360) 360\<rparr>))"

text \<open>The loop over the stuck knives, with its early return.\<close>

fun knifeCollision :: "real list \<Rightarrow> real \<Rightarrow> bool" where
  "knifeCollision [] hitAngle = False"
| "knifeCollision (kAngle # rest) hitAngle =
    (if angleDiff kAngle hitAngle < COLLISION_GAP then True
     else knifeCollision rest hitAngle)"

definition appleIsHit :: "real \<Rightarrow> AppleData \<Rightarrow> bool" where
  "appleIsHit hitAngle apple =
    (if \<not> visible apple then False else angleDiff (angle apple) hitAngle < APPLE_GAP)"

definition totalKnives :: "bool \<Rightarrow> BossData option \<Rightarrow> int" where
  "totalKnives isBoss boss =
    (case boss of Some b \<Rightarrow> if isBoss then boss_knives b else BASE_KNIVES
     | None \<Rightarrow> BASE_KNIVES)"

definition stageReward :: "bool \<Rightarrow> BossData option \<Rightarrow> int" where
  "stageReward isBoss boss =
    (case boss of Some b \<Rightarrow> if isBoss then boss_reward b else 50 | None \<Rightarrow> 50)"

text \<open>
  The completion callback of the fly animation. It returns the new state and the win
  timer it has set, if any.
\<close>

definition onFlightEnd :: "flight \<Rightarrow> game \<Rightarrow> game \<times> winTimer option" where
  "onFlightEnd fl s =
    (let hitAngle = fl_hitAngle fl in
     if knifeCollision (fl_stuckKnives fl) hitAngle then
       (s\<lparr>gameState := Failed, isThrowing := False\<rparr>, None)
     else
       let hit = filter (appleIsHit hitAngle) (fl_apples fl);
           appleHitCount = int (length hit);
           newApples = map (\<lambda>apple. if appleIsHit hitAngle apple
                                     then apple\<lparr>visible := False\<rparr> else apple)
                           (fl_apples fl);
           s1 = s\<lparr>explosions := explosions s @ map angle hit\<rparr>;
           s2 = (if appleHitCount > 0 then
                   (showCoinGain (5 * appleHitCount)
                      (s1\<lparr>apples := newApples, score := score s1 + 5 * appleHitCount,
                          applesHit := applesHit s1 + appleHitCount\<rparr>))
                   \<lparr>coins := coins s1 + 5 * appleHitCount\<rparr>
                 else s1);
           newKnives = fl_stuckKnives fl @ [hitAngle];
           s3 = s2\<lparr>stuckKnives := newKnives, knivesLeft := knivesLeft s2 - 1,
                   score := score s2 + 10\<rparr>;
           timer = (if int (length newKnives)
                         \<ge> totalKnives (fl_isBossLevel fl) (fl_currentBoss fl)
                    then Some \<lparr>wt_isBossLevel = fl_isBossLevel fl,
                               wt_currentBoss = fl_currentBoss fl\<rparr>
                    else None)
       in (s3\<lparr>isThrowing := False\<rparr>, timer))"

text \<open>The callback of the win timer.\<close>

definition onWinTimer :: "winTimer \<Rightarrow> game \<Rightarrow> game" where
  "onWinTimer wt s =
    (let reward = stageReward (wt_isBossLevel wt) (wt_currentBoss wt)
     in (showCoinGain reward (s\<lparr>score := score s + reward, coins := coins s + reward\<rparr>))
          \<lparr>gameState := Win\<rparr>)"

definition removeExplosion :: "real \<Rightarrow> game \<Rightarrow> game" where
  "removeExplosion a s = s\<lparr>explosions := filter (\<lambda>x. x \<noteq> a) (explosions s)\<rparr>"

section \<open>Rewards, continue, restart\<close>

definition claimDailyReward :: "game \<Rightarrow> game" where
  "claimDailyReward s =
    (let s1 = showCoinGain (dailyRewardAmount s)
                (s\<lparr>coins := coins s + dailyRewardAmount s\<rparr>);
         newDay = jsrem (rewardDay s) (int (length DAILY_REWARDS)) + 1
     in s1\<lparr>rewardDay := newDay, showDailyReward := False\<rparr>)"

definition watchAdContinue :: "game \<Rightarrow> game" where
  "watchAdContinue s = s\<lparr>hasUsedContinue := True, knivesLeft := 3, gameState := Playing\<rparr>"

definition nextStage :: "real \<Rightarrow> game \<Rightarrow> game" where
  "nextStage rnd s = (let newStage = stage s + 1 in initGame rnd newStage (s\<lparr>stage := newStage\<rparr>))"

definition watchAdDouble :: "real \<Rightarrow> game \<Rightarrow> game" where
  "watchAdDouble rnd s =
    (let bonus = stageReward (isBossLevel s) (currentBoss s)
     in nextStage rnd (showCoinGain bonus (s\<lparr>coins := coins s + bonus\<rparr>)))"

definition restartGame :: "real \<Rightarrow> game \<Rightarrow> game" where
  "restartGame rnd s =
    initGame rnd 1 (s\<lparr>score := 0, stage := 1, isBossLevel := False, currentBoss := None\<rparr>)"

text \<open>
  The effect that follows every render: \<open>if (score > highScore) setHighScore(score)\<close>.
\<close>

definition highScoreEffect :: "game \<Rightarrow> game" where
  "highScoreEffect s = (if score s > highScore s then s\<lparr>highScore := score s\<rparr> else s)"

section \<open>The component as an event system\<close>

text \<open>
  The component reacts to presses, to the completion of animations, to timers and to
  animation frames; JavaScript runs one handler at a time, and React renders between
  two of them, so every handler sees the state left by the one before. A state of the
  system is the state of the component together with the callbacks that are still to
  run: the fly animations in progress, the win timers set, and whether the start-up
  load is still outstanding.

  An event is enabled where the rendered screen offers it: a button that is not rendered
  cannot be pressed, a callback that is not pending cannot run. Callbacks may run in any
  order. The reward dialog lies over the screen while it is shown; the presses under it
  are enabled all the same, and the 600 ms timer that hides the coin popup may run at
  any time; both only add runs.

  The animated value \<open>flyAnim\<close> is not part of the state, so resetting it
  (\<open>flyAnim.setValue(0)\<close> in \<open>initGame\<close>, \<open>startBossLevel\<close> and \<open>throwKnife\<close>) does
  nothing here: a fly animation in progress stays pending until its callback runs. A
  reset meets an animation in progress only after a tap was accepted while a win timer
  was pending (see \<open>roundOk\<close> below), and the sample runs have no reset in that
  situation.
\<close>

record sys =
  ui :: game
  flights :: "flight list"
  winTimers :: "winTimer list"
  loadPending :: bool

definition initialSys :: sys where
  "initialSys = \<lparr>ui = initialGame, flights = [], winTimers = [], loadPending = True\<rparr>"

datatype event =
    LoadDone storage string
  | PressClaim
  | PressPlay real
  | PressFight real
  | Tap
  | FlightEnd nat
  | WinTimeout nat
  | Frame
  | PressContinue
  | PressRestart real
  | PressDouble real
  | PressNext real
  | PopupHide
  | ExplosionEnd real

definition isRandom :: "real \<Rightarrow> bool" where
  "isRandom rnd = (0 \<le> rnd \<and> rnd < 1)"

fun enabled :: "event \<Rightarrow> sys \<Rightarrow> bool" where
  "enabled (LoadDone st today) s = (loadPending s \<and> loadSavedData st today (ui s) \<noteq> None)"
| "enabled PressClaim s = showDailyReward (ui s)"
| "enabled (PressPlay rnd) s = (gameState (ui s) = Ready \<and> isRandom rnd)"
| "enabled (PressFight rnd) s =
    (gameState (ui s) = Boss_intro \<and> currentBoss (ui s) \<noteq> None \<and> isRandom rnd)"
| "enabled Tap s = (gameState (ui s) = Playing)"
| "enabled (FlightEnd i) s = (i < length (flights s))"
| "enabled (WinTimeout i) s = (i < length (winTimers s))"
| "enabled Frame s = (gameState (ui s) = Playing)"
| "enabled PressContinue s = (gameState (ui s) = Failed \<and> \<not> hasUsedContinue (ui s))"
| "enabled (PressRestart rnd) s = (gameState (ui s) = Failed \<and> isRandom rnd)"
| "enabled (PressDouble rnd) s = (gameState (ui s) = Win \<and> isRandom rnd)"
| "enabled (PressNext rnd) s = (gameState (ui s) = Win \<and> isRandom rnd)"
| "enabled PopupHide s = True"
| "enabled (ExplosionEnd a) s = (a \<in> set (explosions (ui s)))"

definition dropNth :: "nat \<Rightarrow> 'a list \<Rightarrow> 'a list" where
  "dropNth i xs = take i xs @ drop (Suc i) xs"

fun handle :: "event \<Rightarrow> sys \<Rightarrow> sys" where
  "handle (LoadDone st today) s =
    (case loadSavedData st today (ui s) of
       None \<Rightarrow> s
     | Some g \<Rightarrow> s\<lparr>ui := g, loadPending := False\<rparr>)"
| "handle PressClaim s = s\<lparr>ui := claimDailyReward (ui s)\<rparr>"
| "handle (PressPlay rnd) s = s\<lparr>ui := initGame rnd 1 (ui s)\<rparr>"
| "handle (PressFight rnd) s = s\<lparr>ui := startBossLevel rnd (ui s)\<rparr>"
| "handle Tap s =
    (case throwKnife (ui s) of
       (g, None) \<Rightarrow> s\<lparr>ui := g\<rparr>
     | (g, Some fl) \<Rightarrow> s\<lparr>ui := g, flights := flights s @ [fl]\<rparr>)"
| "handle (FlightEnd i) s =
    (case onFlightEnd (flights s ! i) (ui s) of
       (g, None) \<Rightarrow> s\<lparr>ui := g, flights := dropNth i (flights s)\<rparr>
     | (g, Some wt) \<Rightarrow>
         s\<lparr>ui := g, flights := dropNth i (flights s), winTimers := winTimers s @ [wt]\<rparr>)"
| "handle (WinTimeout i) s =
    s\<lparr>ui := onWinTimer (winTimers s ! i) (ui s), winTimers := dropNth i (winTimers s)\<rparr>"
| "handle Frame s = s\<lparr>ui := rotationLoop (ui s)\<rparr>"
| "handle PressContinue s = s\<lparr>ui := watchAdContinue (ui s)\<rparr>"
| "handle (PressRestart rnd) s = s\<lparr>ui := restartGame rnd (ui s)\<rparr>"
| "handle (PressDouble rnd) s = s\<lparr>ui := watchAdDouble rnd (ui s)\<rparr>"
| "handle (PressNext rnd) s = s\<lparr>ui := nextStage rnd (ui s)\<rparr>"
| "handle PopupHide s = s\<lparr>ui := (ui s)\<lparr>showCoinPopup := False\<rparr>\<rparr>"
| "handle (ExplosionEnd a) s = s\<lparr>ui := removeExplosion a (ui s)\<rparr>"

text \<open>An event: its handler, then the render with its high-score effect.\<close>

definition fire :: "event \<Rightarrow> sys \<Rightarrow> sys" where
  "fire e s = (let s1 = handle e s in s1\<lparr>ui := highScoreEffect (ui s1)\<rparr>)"

text \<open>
  A run of the system: the events one after the other, \<open>None\<close> if one of them is not
  enabled where it comes. The reachable states are the results of the runs from
  \<open>initialSys\<close>.
\<close>

fun run :: "event list \<Rightarrow> sys \<Rightarrow> sys option" where
  "run [] s = Some s"
| "run (e # es) s = (if enabled e s then run es (fire e s) else None)"

section \<open>Vocabulary of the specification\<close>

text \<open>
  The angular distance as the specification writes it, \<open>min(|a-b|, 360-|a-b|)\<close>, to be
  compared with \<open>angleDiff\<close> of the code.
\<close>

definition angularDistance :: "real \<Rightarrow> real \<Rightarrow> real" where
  "angularDistance a b = min \<bar>a - b\<bar> (360 - \<bar>a - b\<bar>)"

text \<open>A ledger whose angles are pairwise at least 18 degrees apart.\<close>

fun separated :: "real list \<Rightarrow> bool" where
  "separated [] = True"
| "separated (a # rest) = ((\<forall>b\<in>set rest. 18 \<le> angularDistance a b) \<and> separated rest)"

text \<open>
  The invariant behind the separation of the stuck knives: the ledger is separated, and
  so is the ledger that every fly animation in progress has captured.
\<close>

definition knivesApart :: "sys \<Rightarrow> bool" where
  "knivesApart s =
    (separated (stuckKnives (ui s)) \<and> (\<forall>fl\<in>set (flights s). separated (fl_stuckKnives fl)))"

text \<open>
  The invariant behind the credits: every boss record held by the state or captured by
  a pending callback comes from the table \<open>BOSSES\<close>, and the daily reward is not
  negative.
\<close>

definition bossKnown :: "BossData option \<Rightarrow> bool" where
  "bossKnown b = (case b of None \<Rightarrow> True | Some boss \<Rightarrow> boss \<in> set BOSSES)"

definition creditsOnly :: "sys \<Rightarrow> bool" where
  "creditsOnly s =
    (0 \<le> dailyRewardAmount (ui s) \<and> bossKnown (currentBoss (ui s)) \<and>
     (\<forall>fl\<in>set (flights s). bossKnown (fl_currentBoss fl)) \<and>
     (\<forall>wt\<in>set (winTimers s). bossKnown (wt_currentBoss wt)))"

text \<open>The events that call \<open>initGame\<close> or \<open>startBossLevel\<close>.\<close>

fun startsRound :: "event \<Rightarrow> bool" where
  "startsRound (PressPlay rnd) = True"
| "startsRound (PressFight rnd) = True"
| "startsRound (PressRestart rnd) = True"
| "startsRound (PressDouble rnd) = True"
| "startsRound (PressNext rnd) = True"
| "startsRound e = False"

text \<open>The state that a run from the initial state ends in.\<close>

definition stateAfter :: "event list \<Rightarrow> sys" where
  "stateAfter es = (case run es initialSys of Some s \<Rightarrow> s | None \<Rightarrow> initialSys)"

section \<open>Sample states and runs\<close>

text \<open>A round with one knife at 170 degrees; the board stands at rotation 0, so the next
  knife lands at 180.\<close>

definition collidingState :: game where
  "collidingState =
    initialGame\<lparr>gameState := Playing, stuckKnives := [170], score := 10, knivesLeft := 9\<rparr>"

definition collidingFlight :: flight where
  "collidingFlight =
    \<lparr>fl_stuckKnives = [170], fl_apples = [], fl_isBossLevel = False,
     fl_currentBoss = None, fl_hitAngle = 180\<rparr>"

definition firstFailure :: game where
  "firstFailure =
    initialGame\<lparr>gameState := Failed, stuckKnives := [180, 162], knivesLeft := 8,
                 score := 20\<rparr>"

text \<open>The first boss round, won.\<close>

definition bossWon :: game where
  "bossWon =
    initialGame\<lparr>gameState := Win, stage := 5, isBossLevel := True,
                 currentBoss := getBossForStage 5, score := 470, coins := 200\<rparr>"

text \<open>
  The sample runs keep the times of a display with 60 frames a second: the fly animation
  of 100 ms lasts six frames, and so does the delay of the win timer.
\<close>

definition flight6 :: "event list" where
  "flight6 = [Tap, Frame, Frame, Frame, Frame, Frame, Frame, FlightEnd 0]"

definition wait6 :: "event list" where
  "wait6 = [Frame, Frame, Frame, Frame, Frame, Frame]"

definition wait5 :: "event list" where
  "wait5 = [Frame, Frame, Frame, Frame, Frame]"

text \<open>Two knives thrown twelve frames, that is 18 degrees, apart.\<close>

definition twoKnives :: "event list" where
  "twoKnives = [PressPlay 0] @ flight6 @ wait6 @ flight6"

text \<open>A knife, a second one as soon as the first has landed, 9 degrees on: the round
  fails. Then a continue.\<close>

definition continueUsed :: "event list" where
  "continueUsed = [PressPlay 0] @ flight6 @ flight6 @ [PressContinue]"

text \<open>
  After the continue: a knife, which sticks, and one more as soon as it has landed, which
  fails the round a second time.
\<close>

definition failAgain :: "event list" where
  "failAgain = flight6 @ flight6"

text \<open>A round started and the first knife in the air.\<close>

definition firstTap :: "event list" where
  "firstTap = [PressPlay 0, Tap, Frame, Frame, Frame, Frame, Frame, Frame]"

text \<open>
  Two random numbers: the largest binary64 number below 1, and the binary64 number
  nearest to 0.3. With three apples the first gives the offset \<open>nearly120\<close>, the
  binary64 number just below 120; with ten apples the second gives the first angles
  \<open>nearly10_8\<close> (printed 10.799999999999999) and \<open>nearly46_8\<close> (printed 46.8).
\<close>

definition lastBelowOne :: real where
  "lastBelowOne = 1 - 1 / 2 ^ 53"

definition nearly120 :: real where
  "nearly120 = 120 - 1 / 2 ^ 46"

definition threeTenths :: real where
  "threeTenths = 5404319552844595 / 2 ^ 54"

definition nearly10_8 :: real where
  "nearly10_8 = 6079859496950169 / 2 ^ 49"

definition nearly46_8 :: real where
  "nearly46_8 = 3293257227514675 / 2 ^ 46"

section \<open>Throws one after the other\<close>

text \<open>The angle at which a knife lands when the board stands at rotation \<open>r\<close>, as
  \<open>throwKnife\<close> computes it.\<close>

definition hitAngleAt :: "real \<Rightarrow> real" where
  "hitAngleAt r = jsmod (180 - r + 360) 360"

text \<open>
  A throw whose callbacks run before anything else happens: the tap, the completion of
  the fly animation, and the win timer if one was set.
\<close>

definition throwCycle :: "game \<Rightarrow> game" where
  "throwCycle s =
    (case throwKnife s of
       (s1, None) \<Rightarrow> s1
     | (s1, Some fl) \<Rightarrow>
         (case onFlightEnd fl s1 of
            (s2, None) \<Rightarrow> s2
          | (s2, Some wt) \<Rightarrow> onWinTimer wt s2))"

text \<open>Such throws in a row, the board standing at the given rotations at the taps.\<close>

fun throwsAt :: "real list \<Rightarrow> game \<Rightarrow> game" where
  "throwsAt [] s = s"
| "throwsAt (r # rs) s = throwsAt rs (throwCycle (s\<lparr>rotationRef := r, rotation := r\<rparr>))"

text \<open>A hit angle that is at least 15 degrees away from every apple.\<close>

definition missesApples :: "real \<Rightarrow> AppleData list \<Rightarrow> bool" where
  "missesApples h as = (\<forall>a\<in>set as. 15 \<le> angularDistance (angle a) h)"

text \<open>Ten rotations that put the knives half way between the ten apples of offset 0.\<close>

definition cleanRotations :: "real list" where
  "cleanRotations = [162, 126, 90, 54, 18, 342, 306, 270, 234, 198]"

section \<open>The daily reward is due\<close>

text \<open>
  The load has completed, the reward dialog is shown, the streak day is \<open>d\<close> and the
  amount on offer is the table entry of day \<open>d\<close>.
\<close>

definition rewardDue :: "int \<Rightarrow> sys \<Rightarrow> bool" where
  "rewardDue d s =
    (\<not> loadPending s \<and> showDailyReward (ui s) \<and> rewardDay (ui s) = d \<and>
     dailyRewardFor d = Some (dailyRewardAmount (ui s)))"

text \<open>A store on the seventh day of the streak, last claimed the day before.\<close>

definition sevenDayStore :: storage where
  "sevenDayStore =
    \<lparr>st_coins = Some 120, st_highScore = Some 300,
     st_lastRewardDate = Some ''Mon Nov 02 2026'', st_rewardDay = Some 7\<rparr>"

text \<open>The player starts a round before the load has completed; the load completes and
  two frames pass under the reward dialog.\<close>

definition sevenDayRun :: "event list" where
  "sevenDayRun = [PressPlay 0, LoadDone sevenDayStore ''Tue Nov 03 2026'', Frame, Frame]"

text \<open>A store whose reward of the day has been claimed.\<close>

definition quietStore :: storage where
  "quietStore =
    \<lparr>st_coins = Some 0, st_highScore = Some 0,
     st_lastRewardDate = Some ''Tue Nov 03 2026'', st_rewardDay = Some 2\<rparr>"

text \<open>Ten knives, a tap every twelve frames.\<close>

definition tenThrows :: "event list" where
  "tenThrows =
     flight6 @ wait6 @ flight6 @ wait6 @ flight6 @ wait6 @ flight6 @ wait6 @ flight6 @ wait6 @
     flight6 @ wait6 @ flight6 @ wait6 @ flight6 @ wait6 @ flight6 @ wait6 @ flight6 @ wait6"

text \<open>Eight knives, a tap every eleven frames.\<close>

definition eightThrows :: "event list" where
  "eightThrows =
     flight6 @ wait5 @ flight6 @ wait5 @ flight6 @ wait5 @ flight6 @ wait5 @ flight6 @ wait5 @
     flight6 @ wait5 @ flight6 @ wait5 @ flight6"

text \<open>
  Stages 1 and 2 are won with ten knives each; the win timer runs six frames after the
  tenth knife has landed. On stage 3 the board turns 1.7 degrees a frame. Eight knives
  stick; a ninth tap, as soon as the eighth knife has landed, hits it: the round fails.
  Continue: three knives. Two of them stick, so that ten knives are in the log, the win
  timer is set, one knife is left and the phase is still playing. Five frames later,
  before the timer runs, a tap: it is accepted. One frame later the win timer runs, and
  then the fly animation of the last tap completes.
\<close>

definition raceTrace :: "event list" where
  "raceTrace =
    [LoadDone quietStore ''Tue Nov 03 2026'', PressPlay 0] @
    tenThrows @ [WinTimeout 0, PressNext 0] @
    tenThrows @ [WinTimeout 0, PressNext 0] @
    eightThrows @ flight6 @ [PressContinue] @ flight6 @ wait5 @ flight6 @ wait5 @
    [Tap, Frame, WinTimeout 0, FlightEnd 0]"

section \<open>Rounds without a tap while a win timer is pending\<close>

text \<open>
  A run in which no tap is handled while a win timer is pending, as the
  specification demands of the throw.
\<close>

fun runOrderly :: "event list \<Rightarrow> sys \<Rightarrow> sys option" where
  "runOrderly [] s = Some s"
| "runOrderly (e # es) s =
    (if enabled e s \<and> (e = Tap \<longrightarrow> winTimers s = []) then runOrderly es (fire e s)
     else None)"

text \<open>The part of a state that decides how a round ends.\<close>

record roundView =
  v_phase :: GameState
  v_stuck :: "real list"
  v_throwing :: bool
  v_isBoss :: bool
  v_boss :: "BossData option"
  v_flights :: "flight list"
  v_timers :: "winTimer list"

definition viewOf :: "sys \<Rightarrow> roundView" where
  "viewOf s =
    \<lparr>v_phase = gameState (ui s), v_stuck = stuckKnives (ui s), v_throwing = isThrowing (ui s),
     v_isBoss = isBossLevel (ui s), v_boss = currentBoss (ui s), v_flights = flights s,
     v_timers = winTimers s\<rparr>"

text \<open>
  The invariant of the orderly runs. At most one callback is pending. A fly animation in
  progress has captured the present ledger and boss, in a playing round short of its
  budget; a pending win timer finds a playing round with exactly the budget; with nothing
  pending a playing or failed round is short of the budget and a won one has exactly the
  budget.
\<close>

definition roundOk :: "roundView \<Rightarrow> bool" where
  "roundOk v =
    (let n = int (length (v_stuck v)); total = totalKnives (v_isBoss v) (v_boss v) in
     bossKnown (v_boss v) \<and>
     length (v_flights v) \<le> 1 \<and> length (v_timers v) \<le> 1 \<and>
     (v_flights v = [] \<or> v_timers v = []) \<and>
     (\<forall>fl\<in>set (v_flights v).
        v_phase v = Playing \<and> v_throwing v \<and> n < total \<and>
        fl_stuckKnives fl = v_stuck v \<and> fl_isBossLevel fl = v_isBoss v \<and>
        fl_currentBoss fl = v_boss v) \<and>
     (v_timers v \<noteq> [] \<longrightarrow> v_phase v = Playing \<and> n = total) \<and>
     (v_flights v = [] \<and> v_timers v = [] \<and> (v_phase v = Playing \<or> v_phase v = Failed)
        \<longrightarrow> n < total) \<and>
     (v_phase v = Win \<longrightarrow> n = total \<and> v_flights v = [] \<and> v_timers v = []))"

section \<open>Basic facts\<close>

lemma angleDiff_angularDistance: "angleDiff a b = angularDistance a b"
  by (simp add: angleDiff_def angularDistance_def Let_def min_def)

lemma angularDistance_sym: "angularDistance a b = angularDistance b a"
  by (simp add: angularDistance_def abs_minus_commute)

lemma knifeCollision_iff:
  "knifeCollision ks h \<longleftrightarrow> (\<exists>k\<in>set ks. angularDistance k h < 18)"
  by (induction ks) (auto simp: angleDiff_angularDistance COLLISION_GAP_def)

lemma separated_snoc:
  "separated (ks @ [h]) \<longleftrightarrow> separated ks \<and> (\<forall>k\<in>set ks. 18 \<le> angularDistance k h)"
  by (induction ks) auto

lemma separated_nth:
  "separated ks \<Longrightarrow> i < j \<Longrightarrow> j < length ks \<Longrightarrow> 18 \<le> angularDistance (ks ! i) (ks ! j)"
proof (induction ks arbitrary: i j)
  case Nil
  then show ?case by simp
next
  case (Cons a ks)
  show ?case
  proof (cases i)
    case 0
    with Cons.prems show ?thesis by (cases j) auto
  next
    case (Suc i')
    with Cons.prems obtain j' where "j = Suc j'" by (cases j) auto
    with Suc Cons show ?thesis by auto
  qed
qed

lemma set_dropNth: "set (dropNth i xs) \<subseteq> set xs"
  by (auto simp: dropNth_def dest: in_set_takeD in_set_dropD)

text \<open>A property that holds at the start of a run and that every enabled event keeps
  holds at its end.\<close>

lemma run_invariant:
  assumes "P s" and "\<And>e t. P t \<Longrightarrow> enabled e t \<Longrightarrow> P (fire e t)" and "run es s = Some s'"
  shows "P s'"
  using assms(1,3)
proof (induction es arbitrary: s)
  case Nil
  then show ?case by simp
next
  case (Cons e es)
  from Cons.prems(2) have en: "enabled e s" and r: "run es (fire e s) = Some s'"
    by (auto split: if_splits)
  from assms(2)[OF Cons.prems(1) en] r show ?case by (rule Cons.IH)
qed

lemma highScoreEffect_fields [simp]:
  "hasUsedContinue (highScoreEffect g) = hasUsedContinue g"
  "coins (highScoreEffect g) = coins g"
  "score (highScoreEffect g) = score g"
  "stuckKnives (highScoreEffect g) = stuckKnives g"
  "gameState (highScoreEffect g) = gameState g"
  "showDailyReward (highScoreEffect g) = showDailyReward g"
  "rewardDay (highScoreEffect g) = rewardDay g"
  "dailyRewardAmount (highScoreEffect g) = dailyRewardAmount g"
  "currentBoss (highScoreEffect g) = currentBoss g"
  "isBossLevel (highScoreEffect g) = isBossLevel g"
  by (simp_all add: highScoreEffect_def)

lemma fire_fields [simp]:
  "flights (fire e s) = flights (handle e s)"
  "winTimers (fire e s) = winTimers (handle e s)"
  "loadPending (fire e s) = loadPending (handle e s)"
  "ui (fire e s) = highScoreEffect (ui (handle e s))"
  by (simp_all add: fire_def Let_def)

subsection \<open>Rounding to binary64\<close>

lemma roundEven_err: "\<bar>real_of_int (roundEven y) - y\<bar> \<le> 1 / 2"
  unfolding roundEven_def Let_def by (auto split: if_splits)

lemma roundEven_nonneg: "0 \<le> y \<Longrightarrow> 0 \<le> roundEven y"
  unfolding roundEven_def Let_def by (auto split: if_splits)

lemma roundEven_of_int [simp]: "roundEven (real_of_int k) = k"
  by (simp add: roundEven_def)

lemma ulp_pos: "0 < ulp x"
  by (simp add: ulp_def)

lemma round64_err_ulp: "\<bar>round64 x - x\<bar> \<le> ulp x / 2"
proof -
  have "round64 x - x = (real_of_int (roundEven (x / ulp x)) - x / ulp x) * ulp x"
    using ulp_pos[of x] by (simp add: round64_def left_diff_distrib)
  then have "\<bar>round64 x - x\<bar> = \<bar>real_of_int (roundEven (x / ulp x)) - x / ulp x\<bar> * ulp x"
    using ulp_pos[of x] by (simp add: abs_mult)
  also have "\<dots> \<le> 1 / 2 * ulp x"
    using roundEven_err[of "x / ulp x"] ulp_pos[of x] by (intro mult_right_mono) simp_all
  finally show ?thesis by simp
qed

lemma round64_nonneg: "0 \<le> x \<Longrightarrow> 0 \<le> round64 x"
  using ulp_pos[of x] roundEven_nonneg[of "x / ulp x"] by (simp add: round64_def)

lemma expo_lower:
  assumes "- int emin \<le> expo x"
  shows "2 powi expo x \<le> \<bar>x\<bar>"
proof -
  define m where "m = nat \<lfloor>\<bar>x\<bar> * 2 ^ emin\<rfloor>"
  define f where "f = floorlog 2 m"
  have ex: "expo x = int f - int emin - 1" unfolding expo_def m_def f_def ..
  with assms have f: "1 \<le> f" by simp
  then have m: "0 < m" by (auto simp: f_def floorlog_def split: if_splits)
  from floorlog_bounds[OF m, of 2] have "2 ^ (f - 1) \<le> m" by (simp add: f_def)
  then have "(2::real) ^ (f - 1) \<le> real m"
    by (metis of_nat_le_iff of_nat_numeral of_nat_power)
  also have "real m \<le> \<bar>x\<bar> * 2 ^ emin" by (simp add: m_def)
  finally have le: "(2::real) ^ (f - 1) \<le> \<bar>x\<bar> * 2 ^ emin" .
  have "expo x = int (f - 1) - int emin" using f ex by simp
  then have "2 powi expo x = (2::real) ^ (f - 1) / 2 ^ emin"
    by (simp add: power_int_diff)
  also have "\<dots> \<le> \<bar>x\<bar>" using le by (simp add: divide_le_eq)
  finally show ?thesis .
qed

lemma ulp_le: "ulp x \<le> \<bar>x\<bar> / 2 ^ 52 + 1 / 2 ^ emin"
proof (cases "- int emin \<le> expo x - 52")
  case True
  then have "max (expo x - 52) (- int emin) = expo x - 52" by simp
  then have "ulp x = 2 powi (expo x - 52)" by (simp only: ulp_def)
  then have "ulp x = 2 powi expo x / 2 ^ 52" by (simp add: power_int_diff)
  also have "\<dots> \<le> \<bar>x\<bar> / 2 ^ 52"
    using expo_lower[of x] True by (intro divide_right_mono) simp_all
  finally show ?thesis by (simp add: add_increasing2)
next
  case False
  then have "max (expo x - 52) (- int emin) = - int emin" by simp
  then have "ulp x = 2 powi (- int emin)" by (simp only: ulp_def)
  then have "ulp x = 1 / 2 ^ emin" by (simp add: power_int_minus inverse_eq_divide)
  then show ?thesis by simp
qed

text \<open>The error of one rounding: at most \<open>2 ^ (- 53)\<close> of the value, or half the least
  subnormal number.\<close>

lemma round64_err: "\<bar>round64 x - x\<bar> \<le> (\<bar>x\<bar> + 1) / 2 ^ 53"
proof -
  have "(1::real) / 2 ^ emin \<le> 1 / 2 ^ 52"
    by (intro divide_left_mono power_increasing) (simp_all add: emin_def)
  with ulp_le[of x] have "ulp x \<le> \<bar>x\<bar> / 2 ^ 52 + 1 / 2 ^ 52" by linarith
  then have "ulp x / 2 \<le> (\<bar>x\<bar> + 1) / 2 ^ 53" by (simp add: add_divide_distrib)
  with round64_err_ulp[of x] show ?thesis by linarith
qed

lemma expo_upper:
  assumes "\<bar>x\<bar> < 2 ^ k"
  shows "expo x \<le> int k - 1"
proof -
  define m where "m = nat \<lfloor>\<bar>x\<bar> * 2 ^ emin\<rfloor>"
  have ex: "expo x = int (floorlog 2 m) - int emin - 1" unfolding expo_def m_def ..
  have "real m \<le> \<bar>x\<bar> * 2 ^ emin" by (simp add: m_def)
  also have "\<dots> < 2 ^ k * 2 ^ emin" using assms by simp
  also have "\<dots> = real (2 ^ (k + emin))" by (simp add: power_add)
  finally have "m < 2 ^ (k + emin)" by (simp only: of_nat_less_iff)
  then have "floorlog 2 m \<le> k + emin" by (intro floorlog_leI) simp_all
  then show ?thesis by (simp add: ex)
qed

text \<open>The integers below \<open>2 ^ 53\<close> are binary64 numbers.\<close>

lemma round64_of_int:
  assumes "\<bar>k\<bar> < 2 ^ 53"
  shows "round64 (real_of_int k) = real_of_int k"
proof -
  define j where "j = max (expo (real_of_int k) - 52) (- int emin)"
  have "\<bar>real_of_int k\<bar> < 2 ^ 53"
    using assms by (metis of_int_abs of_int_less_numeral_power_cancel_iff)
  from expo_upper[OF this] have j: "j \<le> 0" by (simp add: j_def)
  define n where "n = nat (- j)"
  from j have jn: "j = - int n" by (simp add: n_def)
  have "ulp (real_of_int k) = 2 powi j" unfolding ulp_def j_def ..
  then have u: "ulp (real_of_int k) = 1 / 2 ^ n"
    by (simp add: jn power_int_minus inverse_eq_divide)
  have "real_of_int k / ulp (real_of_int k) = real_of_int (k * 2 ^ n)" by (simp add: u)
  then have "roundEven (real_of_int k / ulp (real_of_int k)) = k * 2 ^ n"
    by (simp only: roundEven_of_int)
  then show ?thesis by (simp add: round64_def u)
qed

lemma round64_numeral [simp]:
  "(numeral k :: int) < 9007199254740992 \<Longrightarrow> round64 (numeral k) = numeral k"
  using round64_of_int[of "numeral k"] by simp

lemma round64_0 [simp]: "round64 0 = 0"
  using round64_of_int[of 0] by simp

lemma round64_1 [simp]: "round64 1 = 1"
  using round64_of_int[of 1] by simp

lemma expo_eq:
  assumes "2 powi e \<le> \<bar>x\<bar>" and "\<bar>x\<bar> < 2 powi (e + 1)" and "- int emin \<le> e"
  shows "expo x = e"
proof -
  define m where "m = nat \<lfloor>\<bar>x\<bar> * 2 ^ emin\<rfloor>"
  define a where "a = nat (e + int emin)"
  from assms(3) have e: "e = int a - int emin" by (simp add: a_def)
  have p: "(2::real) powi e = 2 ^ a / 2 ^ emin"
    "(2::real) powi (e + 1) = 2 ^ (a + 1) / 2 ^ emin"
    by (simp_all add: e power_int_diff power_int_add)
  from assms(1) have "(2::real) ^ a \<le> \<bar>x\<bar> * 2 ^ emin" by (simp add: p divide_le_eq)
  then have "real_of_int (2 ^ a) \<le> \<bar>x\<bar> * 2 ^ emin" by simp
  then have "2 ^ a \<le> \<lfloor>\<bar>x\<bar> * 2 ^ emin\<rfloor>" by (simp only: le_floor_iff)
  then have lo: "2 ^ a \<le> m" by (simp add: m_def le_nat_iff)
  have "real m \<le> \<bar>x\<bar> * 2 ^ emin" by (simp add: m_def)
  also from assms(2) have "\<dots> < 2 ^ (a + 1)" by (simp add: p less_divide_eq)
  finally have "real m < real (2 ^ (a + 1))" by simp
  then have hi: "m < 2 ^ (a + 1)" by (simp only: of_nat_less_iff)
  from lo have "Suc a \<le> floorlog 2 m" by (intro floorlog_ge_SucI) simp_all
  moreover from hi have "floorlog 2 m \<le> a + 1" by (intro floorlog_leI) simp_all
  ultimately have "floorlog 2 m = a + 1" by simp
  moreover have "expo x = int (floorlog 2 m) - int emin - 1" unfolding expo_def m_def ..
  ultimately show ?thesis by (simp add: e)
qed

text \<open>Rounding a number of known binary exponent.\<close>

lemma round64_at:
  assumes "2 powi e \<le> \<bar>x\<bar>" and "\<bar>x\<bar> < 2 powi (e + 1)" and "- 1022 \<le> e"
  shows "round64 x = real_of_int (roundEven (x / 2 powi (e - 52))) * 2 powi (e - 52)"
proof -
  from assms have "expo x = e" by (intro expo_eq) (simp_all add: emin_def)
  with assms(3) have "max (expo x - 52) (- int emin) = e - 52" by (simp add: emin_def)
  then have "ulp x = 2 powi (e - 52)" by (simp only: ulp_def)
  then show ?thesis by (simp add: round64_def)
qed

subsection \<open>The remainder\<close>

lemma jsmod_range:
  assumes "0 \<le> a" and "0 < b"
  shows "0 \<le> jsmod a b \<and> jsmod a b < b"
proof -
  from assms have q: "0 \<le> a / b" by simp
  have "real_of_int \<lfloor>a / b\<rfloor> \<le> a / b" "a / b < real_of_int \<lfloor>a / b\<rfloor> + 1" by linarith+
  then have "real_of_int \<lfloor>a / b\<rfloor> * b \<le> a" "a < (real_of_int \<lfloor>a / b\<rfloor> + 1) * b"
    using assms(2) by (simp_all only: le_divide_eq divide_less_eq if_True)
  then have "b * real_of_int \<lfloor>a / b\<rfloor> \<le> a" "a < b * real_of_int \<lfloor>a / b\<rfloor> + b"
    by (simp_all add: algebra_simps)
  with q show ?thesis by (simp add: jsmod_def trunc_def)
qed

lemma jsmod_small:
  assumes "0 \<le> a" and "a < b"
  shows "jsmod a b = a"
proof -
  from assms have "0 \<le> a / b" "a / b < 1" by simp_all
  then have "\<lfloor>a / b\<rfloor> = 0" by linarith
  with \<open>0 \<le> a / b\<close> show ?thesis by (simp add: jsmod_def trunc_def)
qed

lemma jsmod_once:
  assumes "b \<le> a" and "a < 2 * b" and "0 < b"
  shows "jsmod a b = a - b"
proof -
  from assms have "1 \<le> a / b" "a / b < 2" by (simp_all add: field_simps)
  then have "\<lfloor>a / b\<rfloor> = 1" by linarith
  with \<open>1 \<le> a / b\<close> show ?thesis by (simp add: jsmod_def trunc_def)
qed

subsection \<open>Evaluating runs\<close>

lemma trunc_numeral_div [simp]: "trunc (numeral a / numeral b) = numeral a div numeral b"
  by (simp add: trunc_def)

lemma trunc_one_div [simp]: "trunc (1 / numeral b) = 1 div numeral b"
  by (simp add: trunc_def)

lemma trunc_numeral [simp]: "trunc (numeral a) = numeral a"
  by (simp add: trunc_def)

lemma trunc_1 [simp]: "trunc 1 = 1"
  by (simp add: trunc_def)

lemma trunc_0 [simp]: "trunc 0 = 0"
  by (simp add: trunc_def)

lemmas run_eval =
  enabled.simps handle.simps fire_def Let_def initialSys_def initialGame_def
  loadSavedData_def loadData_def dailyRewardFor_def jsrem_def DAILY_REWARDS_def
  initGame_def getBossForStage_def BOSSES_def generateApples_def BASE_APPLES_def
  BASE_KNIVES_def jsmod_def rotationLoop_def ROTATION_SPEED_def throwKnife_def
  onFlightEnd_def angleDiff_def COLLISION_GAP_def APPLE_GAP_def appleIsHit_def
  totalKnives_def stageReward_def showCoinGain_def onWinTimer_def watchAdContinue_def
  highScoreEffect_def isRandom_def dropNth_def upt_conv_Cons stateAfter_def
  nextStage_def flight6_def wait6_def wait5_def

section \<open>The stuck knives stay apart (C1)\<close>

lemma onFlightEnd_stuckKnives:
  "stuckKnives (fst (onFlightEnd fl g)) =
     (if knifeCollision (fl_stuckKnives fl) (fl_hitAngle fl) then stuckKnives g
      else fl_stuckKnives fl @ [fl_hitAngle fl])"
  by (simp add: onFlightEnd_def Let_def showCoinGain_def)

lemma knivesApart_fire:
  assumes "knivesApart s" and "enabled e s"
  shows "knivesApart (fire e s)"
proof (cases e)
  case (FlightEnd i)
  with assms(2) have i: "i < length (flights s)" by simp
  then have fl: "separated (fl_stuckKnives (flights s ! i))"
    using assms(1) by (simp add: knivesApart_def)
  have rest: "\<forall>fl\<in>set (dropNth i (flights s)). separated (fl_stuckKnives fl)"
    using assms(1) set_dropNth[of i "flights s"] by (auto simp: knivesApart_def)
  have "separated (stuckKnives (fst (onFlightEnd (flights s ! i) (ui s))))"
    using fl assms(1)
    by (auto simp: onFlightEnd_stuckKnives separated_snoc knifeCollision_iff knivesApart_def
          not_less)
  with rest show ?thesis
    unfolding FlightEnd by (auto simp: knivesApart_def split: prod.splits option.splits)
next
  case Tap
  with assms show ?thesis
    by (auto simp: knivesApart_def throwKnife_def split: if_splits)
qed (use assms in \<open>auto simp: knivesApart_def loadSavedData_def claimDailyReward_def
      showCoinGain_def initGame_def startBossLevel_def onWinTimer_def rotationLoop_def
      watchAdContinue_def restartGame_def watchAdDouble_def nextStage_def removeExplosion_def
      Let_def dest: set_dropNth[THEN subsetD] split: option.splits if_splits\<close>)

text \<open>
  C1. In every state that a run of the component reaches from its initial state, any two
  different entries of the stuck-knife ledger are at angular distance
  \<open>min(|a-b|, 360-|a-b|)\<close> of at least 18 degrees. The runs cover every order in which
  presses, animation completions, timers and frames can come; a knife is appended only
  by a fly animation that found no stuck knife closer than 18 degrees.
\<close>

theorem stuck_knives_pairwise_apart:
  assumes "run es initialSys = Some s"
    and "i < length (stuckKnives (ui s))" and "j < length (stuckKnives (ui s))" and "i \<noteq> j"
  shows "18 \<le> angularDistance (stuckKnives (ui s) ! i) (stuckKnives (ui s) ! j)"
proof -
  have "knivesApart initialSys"
    by (simp add: knivesApart_def initialSys_def initialGame_def)
  then have "knivesApart s"
    using knivesApart_fire assms(1) by (rule run_invariant)
  then have sep: "separated (stuckKnives (ui s))" by (simp add: knivesApart_def)
  show ?thesis
  proof (cases "i < j")
    case True
    show ?thesis by (rule separated_nth[OF sep True assms(3)])
  next
    case False
    with assms(4) have "j < i" by simp
    then have "18 \<le> angularDistance (stuckKnives (ui s) ! j) (stuckKnives (ui s) ! i)"
      by (rule separated_nth[OF sep _ assms(2)])
    then show ?thesis by (simp add: angularDistance_sym)
  qed
qed

theorem stuck_knives_pairwise_apart_witness:
  "run twoKnives initialSys = Some (stateAfter twoKnives) \<and>
   stuckKnives (ui (stateAfter twoKnives)) = [180, 162] \<and>
   18 \<le> angularDistance (stuckKnives (ui (stateAfter twoKnives)) ! 0)
                         (stuckKnives (ui (stateAfter twoKnives)) ! 1)"
proof -
  have r: "run twoKnives initialSys = Some (stateAfter twoKnives)"
    by (simp add: twoKnives_def run_eval)
  have k: "stuckKnives (ui (stateAfter twoKnives)) = [180, 162]"
    by (simp add: twoKnives_def run_eval)
  from stuck_knives_pairwise_apart[OF r, of 0 1] r k show ?thesis by simp
qed

section \<open>Continue (C3, C5)\<close>

lemma hasUsedContinue_kept:
  assumes "hasUsedContinue (ui s)" and "enabled e s" and "\<not> startsRound e"
  shows "hasUsedContinue (ui (fire e s))"
  using assms
  by (cases e)
     (auto simp: loadSavedData_def claimDailyReward_def showCoinGain_def throwKnife_def
        onFlightEnd_def onWinTimer_def rotationLoop_def watchAdContinue_def
        removeExplosion_def Let_def split: option.splits if_splits prod.splits)

lemma watchAdContinue_sets_flag: "hasUsedContinue (watchAdContinue s)"
  by (simp add: watchAdContinue_def)

text \<open>
  C3, as stated, fails: \<open>watchAdContinue\<close> has no guard. In the state reached by a
  continue followed by a second failure, where \<open>hasUsedContinue\<close> is true, a call of
  \<open>watchAdContinue\<close> still sets the phase to playing and \<open>knivesLeft\<close> from 2 to 3.
\<close>

theorem watchAdContinue_unguarded:
  "run (continueUsed @ failAgain) initialSys = Some (stateAfter (continueUsed @ failAgain)) \<and>
   hasUsedContinue (ui (stateAfter (continueUsed @ failAgain))) \<and>
   gameState (ui (stateAfter (continueUsed @ failAgain))) = Failed \<and>
   knivesLeft (ui (stateAfter (continueUsed @ failAgain))) = 2 \<and>
   gameState (watchAdContinue (ui (stateAfter (continueUsed @ failAgain)))) = Playing \<and>
   knivesLeft (watchAdContinue (ui (stateAfter (continueUsed @ failAgain)))) = 3"
  by (simp add: continueUsed_def failAgain_def run_eval)

text \<open>
  C3, amended. The gate is in the rendered screen: the failed screen shows the continue
  button only while \<open>hasUsedContinue\<close> is false, so in a state where it is true the press
  that calls \<open>watchAdContinue\<close> is not enabled. The flag, once true, stays true through
  every event that does not start a round, so until the round is initialised again the
  button is not offered a second time: continue is used at most once per round.
\<close>

theorem continue_once_per_round:
  assumes "hasUsedContinue (ui s)"
    and "\<forall>e\<in>set es. \<not> startsRound e"
    and "run es s = Some s'"
  shows "\<not> enabled PressContinue s \<and> hasUsedContinue (ui s') \<and> \<not> enabled PressContinue s'"
proof -
  from assms have "hasUsedContinue (ui s')"
  proof (induction es arbitrary: s)
    case Nil
    then show ?case by simp
  next
    case (Cons e es)
    from Cons.prems(3) have en: "enabled e s" and r: "run es (fire e s) = Some s'"
      by (auto split: if_splits)
    from Cons.prems(1,2) en have "hasUsedContinue (ui (fire e s))"
      by (intro hasUsedContinue_kept) auto
    with Cons.IH[OF _ _ r] Cons.prems(2) show ?case by simp
  qed
  with assms(1) show ?thesis by simp
qed

theorem continue_once_per_round_witness:
  "hasUsedContinue (ui (stateAfter continueUsed)) \<and>
   list_all (\<lambda>e. \<not> startsRound e) failAgain \<and>
   run failAgain (stateAfter continueUsed) = Some (stateAfter (continueUsed @ failAgain)) \<and>
   gameState (ui (stateAfter (continueUsed @ failAgain))) = Failed \<and>
   \<not> enabled PressContinue (stateAfter (continueUsed @ failAgain))"
proof -
  have a: "hasUsedContinue (ui (stateAfter continueUsed))"
    by (simp add: continueUsed_def run_eval)
  have b: "\<forall>e\<in>set failAgain. \<not> startsRound e"
    by (simp add: failAgain_def flight6_def)
  have c: "run failAgain (stateAfter continueUsed) = Some (stateAfter (continueUsed @ failAgain))"
    by (simp add: continueUsed_def failAgain_def run_eval)
  have d: "gameState (ui (stateAfter (continueUsed @ failAgain))) = Failed"
    by (simp add: continueUsed_def failAgain_def run_eval)
  from continue_once_per_round[OF a b c] a b c d show ?thesis by (simp add: list_all_iff)
qed

text \<open>
  C5. In a failed round in which continue has not been used, \<open>watchAdContinue\<close> sets
  \<open>knivesLeft\<close> to 3 and the phase to playing; the stuck knives, the apples, the count
  of apples hit and the score are as before.
\<close>

theorem continue_gives_three_knives:
  assumes "gameState s = Failed" and "\<not> hasUsedContinue s"
  shows "knivesLeft (watchAdContinue s) = 3 \<and> gameState (watchAdContinue s) = Playing \<and>
         stuckKnives (watchAdContinue s) = stuckKnives s \<and>
         apples (watchAdContinue s) = apples s \<and>
         applesHit (watchAdContinue s) = applesHit s \<and>
         score (watchAdContinue s) = score s"
  by (simp add: watchAdContinue_def)

theorem continue_gives_three_knives_witness:
  "gameState firstFailure = Failed \<and> \<not> hasUsedContinue firstFailure \<and>
   knivesLeft firstFailure = 8 \<and>
   knivesLeft (watchAdContinue firstFailure) = 3 \<and>
   gameState (watchAdContinue firstFailure) = Playing \<and>
   stuckKnives (watchAdContinue firstFailure) = [180, 162] \<and>
   score (watchAdContinue firstFailure) = 20"
proof -
  have a: "gameState firstFailure = Failed" by (simp add: firstFailure_def)
  have b: "\<not> hasUsedContinue firstFailure" by (simp add: firstFailure_def initialGame_def)
  have c: "knivesLeft firstFailure = 8" "stuckKnives firstFailure = [180, 162]"
    "score firstFailure = 20"
    by (simp_all add: firstFailure_def)
  from continue_gives_three_knives[OF a b] a b c show ?thesis by simp
qed

section \<open>A throw onto a stuck knife (C4)\<close>

text \<open>
  C4. Take a playing state in which a tap is accepted, and let the angle computed at the
  tap be closer than 18 degrees to some stuck knife. Then the completion of the fly
  animation leaves the state as it was before the tap, but for the phase, which is
  failed: the angle is not appended, and \<open>knivesLeft\<close>, the score, \<open>applesHit\<close>, the
  apples and the coins are unchanged. No win timer is set.
\<close>

theorem failed_throw_changes_phase_only:
  assumes "gameState s = Playing"
    and "throwKnife s = (s1, Some fl)"
    and "\<exists>k\<in>set (stuckKnives s). angularDistance k (fl_hitAngle fl) < 18"
  shows "onFlightEnd fl s1 = (s\<lparr>gameState := Failed\<rparr>, None)"
proof -
  from assms(2) have acc: "\<not> isThrowing s" and s1: "s1 = s\<lparr>isThrowing := True\<rparr>"
    and fl: "fl_stuckKnives fl = stuckKnives s"
    by (auto simp: throwKnife_def split: if_splits)
  from assms(3) have "knifeCollision (fl_stuckKnives fl) (fl_hitAngle fl)"
    by (simp add: knifeCollision_iff fl)
  then show ?thesis using acc s1
    by (simp add: onFlightEnd_def)
qed

theorem failed_throw_changes_phase_only_witness:
  "gameState collidingState = Playing \<and>
   throwKnife collidingState = (collidingState\<lparr>isThrowing := True\<rparr>, Some collidingFlight) \<and>
   (\<exists>k\<in>set (stuckKnives collidingState). angularDistance k (fl_hitAngle collidingFlight) < 18) \<and>
   onFlightEnd collidingFlight (collidingState\<lparr>isThrowing := True\<rparr>)
     = (collidingState\<lparr>gameState := Failed\<rparr>, None)"
proof -
  have a: "gameState collidingState = Playing" by (simp add: collidingState_def)
  have b: "throwKnife collidingState
             = (collidingState\<lparr>isThrowing := True\<rparr>, Some collidingFlight)"
    by (simp add: throwKnife_def collidingState_def collidingFlight_def initialGame_def
          BASE_KNIVES_def jsmod_def)
  have c: "\<exists>k\<in>set (stuckKnives collidingState).
             angularDistance k (fl_hitAngle collidingFlight) < 18"
    by (simp add: collidingState_def collidingFlight_def angularDistance_def)
  from failed_throw_changes_phase_only[OF a b c] a b c show ?thesis by simp
qed

section \<open>Coins are only credited (C9, C10)\<close>

lemma getBossForStage_known: "getBossForStage n = Some boss \<Longrightarrow> boss \<in> set BOSSES"
  by (auto simp: getBossForStage_def find_Some_iff)

lemma boss_reward_pos: "boss \<in> set BOSSES \<Longrightarrow> 0 < boss_reward boss"
  by (auto simp: BOSSES_def)

lemma stageReward_pos: "bossKnown b \<Longrightarrow> 0 < stageReward isBoss b"
  by (auto simp: stageReward_def bossKnown_def boss_reward_pos split: option.splits)

lemma dailyRewardFor_pos:
  assumes "dailyRewardFor d = Some r"
  shows "0 < r"
proof -
  have all: "\<forall>x\<in>set DAILY_REWARDS. 0 < x" by (simp add: DAILY_REWARDS_def)
  define i where "i = nat (jsrem (d - 1) (int (length DAILY_REWARDS)))"
  from assms have "i < length DAILY_REWARDS" "r = DAILY_REWARDS ! i"
    by (auto simp: dailyRewardFor_def Let_def i_def split: if_splits)
  with all show ?thesis by (metis nth_mem)
qed

lemma creditsOnly_fire:
  assumes "creditsOnly s" and "enabled e s"
  shows "creditsOnly (fire e s)"
proof (cases e)
  case (FlightEnd i)
  with assms(2) have i: "i < length (flights s)" by simp
  then have fl: "bossKnown (fl_currentBoss (flights s ! i))"
    using assms(1) by (simp add: creditsOnly_def)
  have rest: "\<forall>fl\<in>set (dropNth i (flights s)). bossKnown (fl_currentBoss fl)"
    using assms(1) set_dropNth[of i "flights s"] by (auto simp: creditsOnly_def)
  show ?thesis
    unfolding FlightEnd using fl rest assms(1)
    by (auto simp: creditsOnly_def onFlightEnd_def Let_def showCoinGain_def
          split: prod.splits option.splits if_splits)
next
  case (LoadDone st today)
  with assms show ?thesis
    by (auto simp: creditsOnly_def loadSavedData_def Let_def
          dest: dailyRewardFor_pos split: option.splits if_splits)
next
  case Tap
  with assms show ?thesis
    by (auto simp: creditsOnly_def throwKnife_def split: if_splits)
qed (use assms in \<open>auto simp: creditsOnly_def claimDailyReward_def
      showCoinGain_def initGame_def startBossLevel_def onWinTimer_def rotationLoop_def
      watchAdContinue_def restartGame_def watchAdDouble_def nextStage_def removeExplosion_def
      Let_def bossKnown_def dest: set_dropNth[THEN subsetD] getBossForStage_known
      split: option.splits if_splits\<close>)

text \<open>
  C9. In every state that a run reaches, every enabled event other than the completion
  of the start-up load leaves the coin balance as it is or makes it larger. The events
  are the tap, the completion of a fly animation (which credits the apples hit), the win
  timer (which credits the stage reward), the daily-reward claim, the double-reward
  press, continue, restart, the next-stage press, the start of a round or of a boss
  round, a frame, and the two display callbacks. The start-up load, which is not among
  the operations the claim lists, overwrites the balance with the stored one.
\<close>

theorem coins_never_decrease:
  assumes "run es initialSys = Some s" and "enabled e s"
    and "\<forall>st today. e \<noteq> LoadDone st today"
  shows "coins (ui (fire e s)) = coins (ui s) \<or> coins (ui s) < coins (ui (fire e s))"
proof -
  have "creditsOnly initialSys"
    by (simp add: creditsOnly_def initialSys_def initialGame_def bossKnown_def)
  then have inv: "creditsOnly s"
    using creditsOnly_fire assms(1) by (rule run_invariant)
  have "coins (ui s) \<le> coins (ui (fire e s))"
  proof (cases e)
    case (LoadDone st today)
    with assms(3) show ?thesis by simp
  next
    case (FlightEnd i)
    then show ?thesis
      by (simp add: onFlightEnd_def Let_def showCoinGain_def split: prod.splits)
  next
    case (WinTimeout i)
    with assms(2) have "winTimers s ! i \<in> set (winTimers s)" by simp
    with inv have "bossKnown (wt_currentBoss (winTimers s ! i))"
      by (simp add: creditsOnly_def)
    from stageReward_pos[OF this] show ?thesis
      unfolding WinTimeout by (simp add: onWinTimer_def Let_def showCoinGain_def less_imp_le)
  next
    case (PressDouble rnd)
    from inv have "bossKnown (currentBoss (ui s))" by (simp add: creditsOnly_def)
    from stageReward_pos[OF this] show ?thesis
      unfolding PressDouble
      by (simp add: watchAdDouble_def nextStage_def initGame_def Let_def showCoinGain_def
            less_imp_le split: option.splits)
  next
    case PressClaim
    with inv show ?thesis
      by (simp add: creditsOnly_def claimDailyReward_def Let_def showCoinGain_def)
  qed (simp_all add: initGame_def startBossLevel_def throwKnife_def rotationLoop_def
        watchAdContinue_def restartGame_def nextStage_def removeExplosion_def Let_def
        split: option.splits)
  then show ?thesis by auto
qed

theorem coins_never_decrease_witness:
  "run firstTap initialSys = Some (stateAfter firstTap) \<and>
   enabled (FlightEnd 0) (stateAfter firstTap) \<and>
   (\<forall>st today. FlightEnd 0 \<noteq> LoadDone st today) \<and>
   coins (ui (stateAfter firstTap)) = 0 \<and>
   coins (ui (fire (FlightEnd 0) (stateAfter firstTap))) = 5"
proof -
  have a: "run firstTap initialSys = Some (stateAfter firstTap)"
    by (simp add: firstTap_def run_eval)
  have b: "enabled (FlightEnd 0) (stateAfter firstTap)"
    by (simp add: firstTap_def run_eval)
  have c: "\<forall>st today. FlightEnd 0 \<noteq> LoadDone st today" by simp
  have d: "coins (ui (stateAfter firstTap)) = 0"
    by (simp add: firstTap_def run_eval)
  have e: "coins (ui (fire (FlightEnd 0) (stateAfter firstTap))) = 5"
    by (simp add: firstTap_def run_eval)
  from coins_never_decrease[OF a b c] a b c d e show ?thesis by simp
qed

text \<open>
  C10. In a win state, \<open>watchAdDouble\<close> adds to the coins exactly the stage reward (the
  reward of the boss in a boss round, 50 otherwise), leaves the score as it is, and moves
  on to the next stage.
\<close>

theorem double_reward_credits_coins_only:
  assumes "gameState s = Win"
  shows "coins (watchAdDouble rnd s) =
           coins s + (case currentBoss s of
                        Some boss \<Rightarrow> if isBossLevel s then boss_reward boss else 50
                      | None \<Rightarrow> 50) \<and>
         score (watchAdDouble rnd s) = score s \<and>
         stage (watchAdDouble rnd s) = stage s + 1"
  by (simp add: watchAdDouble_def nextStage_def initGame_def showCoinGain_def stageReward_def
        Let_def split: option.splits)

theorem double_reward_credits_coins_only_witness:
  "gameState bossWon = Win \<and> coins bossWon = 200 \<and> score bossWon = 470 \<and>
   coins (watchAdDouble 0 bossWon) = 400 \<and> score (watchAdDouble 0 bossWon) = 470 \<and>
   stage (watchAdDouble 0 bossWon) = 6"
proof -
  have w: "gameState bossWon = Win" by (simp add: bossWon_def)
  have c: "currentBoss bossWon = Some (BOSSES ! 0)" "isBossLevel bossWon"
    "coins bossWon = 200" "stage bossWon = 5" "score bossWon = 470"
    by (simp_all add: bossWon_def getBossForStage_def BOSSES_def initialGame_def)
  from double_reward_credits_coins_only[OF w, of 0] c show ?thesis
    by (simp add: w BOSSES_def)
qed

section \<open>Ten clean throws win the round (C6)\<close>

lemma separated_append:
  "separated (xs @ ys) \<longleftrightarrow>
     separated xs \<and> separated ys \<and> (\<forall>x\<in>set xs. \<forall>y\<in>set ys. 18 \<le> angularDistance x y)"
  by (induction xs) auto

lemma no_apple_hit: "missesApples h as \<Longrightarrow> filter (appleIsHit h) as = []"
  by (auto simp: missesApples_def appleIsHit_def angleDiff_angularDistance APPLE_GAP_def
        filter_empty_conv)

lemma throwCycle_sticks:
  assumes "gameState s = Playing" and "\<not> isThrowing s" and "0 < knivesLeft s"
    and "currentBoss s = None"
    and "\<not> knifeCollision (stuckKnives s) (hitAngleAt (rotationRef s))"
    and "missesApples (hitAngleAt (rotationRef s)) (apples s)"
    and "int (length (stuckKnives s)) + 1 < 10"
  shows "throwCycle s =
           s\<lparr>stuckKnives := stuckKnives s @ [hitAngleAt (rotationRef s)],
             knivesLeft := knivesLeft s - 1, score := score s + 10\<rparr>"
  using assms
  by (simp add: throwCycle_def throwKnife_def onFlightEnd_def Let_def
        hitAngleAt_def no_apple_hit totalKnives_def BASE_KNIVES_def)

lemma throwCycle_wins:
  assumes "gameState s = Playing" and "\<not> isThrowing s" and "0 < knivesLeft s"
    and "currentBoss s = None"
    and "\<not> knifeCollision (stuckKnives s) (hitAngleAt (rotationRef s))"
    and "missesApples (hitAngleAt (rotationRef s)) (apples s)"
    and "10 \<le> int (length (stuckKnives s)) + 1"
  shows "gameState (throwCycle s) = Win \<and> score (throwCycle s) = score s + 10 + 50"
  using assms
  by (simp add: throwCycle_def throwKnife_def onFlightEnd_def onWinTimer_def Let_def
        hitAngleAt_def no_apple_hit totalKnives_def stageReward_def
        BASE_KNIVES_def showCoinGain_def)

lemma throws_to_win:
  assumes "gameState s = Playing" and "\<not> isThrowing s" and "currentBoss s = None"
    and "rs \<noteq> []"
    and "knivesLeft s = int (length rs)"
    and "int (length (stuckKnives s)) + int (length rs) = 10"
    and "separated (stuckKnives s @ map hitAngleAt rs)"
    and "\<forall>r\<in>set rs. missesApples (hitAngleAt r) (apples s)"
  shows "gameState (throwsAt rs s) = Win \<and>
         score (throwsAt rs s) = score s + 10 * int (length rs) + 50"
  using assms
proof (induction rs arbitrary: s)
  case Nil
  then show ?case by simp
next
  case (Cons r rs)
  define t where "t = s\<lparr>rotationRef := r, rotation := r\<rparr>"
  have t: "gameState t = Playing" "\<not> isThrowing t" "0 < knivesLeft t" "currentBoss t = None"
    "missesApples (hitAngleAt (rotationRef t)) (apples t)"
    "stuckKnives t = stuckKnives s" "rotationRef t = r" "score t = score s"
    "knivesLeft t = knivesLeft s" "apples t = apples s"
    using Cons.prems by (simp_all add: t_def)
  from Cons.prems(7)
  have nohit: "\<not> knifeCollision (stuckKnives t) (hitAngleAt (rotationRef t))"
    by (auto simp: t separated_append knifeCollision_iff not_less)
  show ?case
  proof (cases "rs = []")
    case True
    with Cons.prems(6) have "10 \<le> int (length (stuckKnives t)) + 1" by (simp add: t)
    from throwCycle_wins[OF t(1-4) nohit t(5) this] True show ?thesis
      by (simp add: t t_def[symmetric])
  next
    case False
    with Cons.prems(6) have lt: "int (length (stuckKnives t)) + 1 < 10"
      by (cases rs) (auto simp: t)
    define u where "u = t\<lparr>stuckKnives := stuckKnives t @ [hitAngleAt (rotationRef t)],
                          knivesLeft := knivesLeft t - 1, score := score t + 10\<rparr>"
    have u: "throwCycle t = u"
      unfolding u_def by (rule throwCycle_sticks[OF t(1-4) nohit t(5) lt])
    have "gameState (throwsAt rs u) = Win \<and>
          score (throwsAt rs u) = score u + 10 * int (length rs) + 50"
      using Cons.prems False by (intro Cons.IH) (auto simp: u_def t)
    then show ?thesis by (simp add: t_def[symmetric] u) (simp add: u_def t)
  qed
qed

text \<open>
  C6. Take a round freshly initialised by \<open>initGame\<close> for a stage that has no boss (ten
  knives), and ten throws, each resolved before the next tap, at rotations whose hit
  angles are pairwise at least 18 degrees apart and at least 15 degrees away from every
  apple. After them the phase is win, and the score has grown by exactly
  \<open>10 * 10 + 50\<close>.
\<close>

theorem ten_clean_throws_win:
  assumes "getBossForStage stageNum = None"
    and "length rs = 10"
    and "separated (map hitAngleAt rs)"
    and "\<forall>r\<in>set rs. missesApples (hitAngleAt r) (generateApples rnd BASE_APPLES)"
  shows "gameState (throwsAt rs (initGame rnd stageNum s0)) = Win \<and>
         score (throwsAt rs (initGame rnd stageNum s0)) = score s0 + (10 * 10 + 50)"
proof -
  let ?s = "initGame rnd stageNum s0"
  from assms(2) have ne: "rs \<noteq> []" by auto
  have "gameState (throwsAt rs ?s) = Win \<and>
        score (throwsAt rs ?s) = score ?s + 10 * int (length rs) + 50"
    using assms ne
    by (intro throws_to_win) (simp_all add: initGame_def BASE_KNIVES_def)
  with assms(1,2) show ?thesis by (simp add: initGame_def)
qed

lemma cleanRotations_hits:
  "map hitAngleAt cleanRotations = [18, 54, 90, 126, 162, 198, 234, 270, 306, 342]"
  by (simp add: cleanRotations_def hitAngleAt_def jsmod_def)

lemma apples_offset_0:
  "map angle (generateApples 0 BASE_APPLES) = [0, 36, 72, 108, 144, 180, 216, 252, 288, 324]"
  by (simp add: generateApples_def BASE_APPLES_def Let_def upt_conv_Cons jsmod_def)

theorem ten_clean_throws_win_witness:
  "getBossForStage 1 = None \<and> length cleanRotations = 10 \<and>
   separated (map hitAngleAt cleanRotations) \<and>
   list_all (\<lambda>r. missesApples (hitAngleAt r) (generateApples 0 BASE_APPLES))
     cleanRotations \<and>
   gameState (throwsAt cleanRotations (initGame 0 1 initialGame)) = Win \<and>
   score (throwsAt cleanRotations (initGame 0 1 initialGame)) = 150"
proof -
  have a: "getBossForStage 1 = None" by (simp add: getBossForStage_def BOSSES_def)
  have b: "length cleanRotations = 10" by (simp add: cleanRotations_def)
  have c: "separated (map hitAngleAt cleanRotations)"
    unfolding cleanRotations_hits by (simp add: angularDistance_def)
  have "\<forall>h\<in>set (map hitAngleAt cleanRotations).
          \<forall>x\<in>set (map angle (generateApples 0 BASE_APPLES)). 15 \<le> angularDistance x h"
    unfolding cleanRotations_hits apples_offset_0 by (simp add: angularDistance_def)
  then have d: "\<forall>r\<in>set cleanRotations.
                  missesApples (hitAngleAt r) (generateApples 0 BASE_APPLES)"
    by (simp add: missesApples_def)
  from ten_clean_throws_win[OF a b c d, of initialGame] a b c d show ?thesis
    by (simp add: initialGame_def list_all_iff)
qed

section \<open>The daily reward (C7)\<close>

lemma run_invariant_on:
  assumes "P s" and "\<And>e t. P t \<Longrightarrow> enabled e t \<Longrightarrow> e \<in> set es \<Longrightarrow> P (fire e t)"
    and "run es s = Some s'"
  shows "P s'"
  using assms
proof (induction es arbitrary: s)
  case Nil
  then show ?case by simp
next
  case (Cons e es)
  from Cons.prems(3) have en: "enabled e s" and r: "run es (fire e s) = Some s'"
    by (auto split: if_splits)
  have "P (fire e s)" using Cons.prems(1) en by (rule Cons.prems(2)) simp
  then show ?case
    using Cons.prems(2) r by (intro Cons.IH[of "fire e s"]) auto
qed

lemma jsrem_nonneg: "0 \<le> a \<Longrightarrow> jsrem a 7 = a mod 7"
  by (cases "a = 0") (simp_all add: jsrem_def)

lemma dailyRewardFor_streak:
  assumes "1 \<le> d"
  shows "dailyRewardFor d = Some (DAILY_REWARDS ! nat ((d - 1) mod 7))"
  using assms by (simp add: dailyRewardFor_def Let_def DAILY_REWARDS_def jsrem_nonneg)

lemma rewardDue_fire:
  assumes "rewardDue d s" and "enabled e s" and "e \<noteq> PressClaim"
  shows "rewardDue d (fire e s)"
  using assms
  by (cases e)
     (auto simp: rewardDue_def showCoinGain_def initGame_def startBossLevel_def
        throwKnife_def onFlightEnd_def onWinTimer_def rotationLoop_def watchAdContinue_def
        restartGame_def watchAdDouble_def nextStage_def removeExplosion_def Let_def
        split: option.splits if_splits prod.splits)

text \<open>
  C7. Let the stored streak day be \<open>d\<close>, between 1 and 7, and the reward not yet claimed
  today. The start-up load then offers the reward, and whatever happens before the
  claim, the claim adds exactly \<open>DAILY_REWARDS[(d - 1) mod 7]\<close> to the coins and sets the
  streak day to \<open>(d mod 7) + 1\<close>; for \<open>d = 7\<close> that is day 1.
\<close>

theorem daily_reward_claim:
  assumes "1 \<le> d" and "d \<le> 7"
    and "loadData (st_rewardDay st) 1 = d"
    and "st_lastRewardDate st \<noteq> Some today"
    and "loadPending s"
    and "\<forall>e\<in>set es. e \<noteq> PressClaim"
    and "run es (fire (LoadDone st today) s) = Some s'"
  shows "enabled (LoadDone st today) s \<and> enabled PressClaim s' \<and> rewardDay (ui s') = d \<and>
         coins (ui (fire PressClaim s'))
           = coins (ui s') + DAILY_REWARDS ! nat ((d - 1) mod 7) \<and>
         rewardDay (ui (fire PressClaim s')) = d mod 7 + 1"
proof -
  note rw = dailyRewardFor_streak[OF assms(1)]
  have en: "enabled (LoadDone st today) s"
    using assms(3,4,5) by (simp add: loadSavedData_def Let_def rw)
  have "rewardDue d (fire (LoadDone st today) s)"
    using assms(3,4) by (simp add: rewardDue_def loadSavedData_def Let_def rw)
  then have due: "rewardDue d s'"
    using _ assms(7)
  proof (rule run_invariant_on)
    fix e t
    assume "rewardDue d t" "enabled e t" "e \<in> set es"
    with assms(6) show "rewardDue d (fire e t)" by (intro rewardDue_fire) auto
  qed
  then have amt: "dailyRewardAmount (ui s') = DAILY_REWARDS ! nat ((d - 1) mod 7)"
    by (simp add: rewardDue_def rw)
  from due have day: "rewardDay (ui s') = d" and sh: "showDailyReward (ui s')"
    by (simp_all add: rewardDue_def)
  from assms(1) have "jsrem d 7 = d mod 7" by (simp add: jsrem_nonneg)
  with amt day sh en show ?thesis
    by (simp add: claimDailyReward_def showCoinGain_def Let_def DAILY_REWARDS_def)
qed

theorem daily_reward_claim_witness:
  "(1::int) \<le> 7 \<and> loadData (st_rewardDay sevenDayStore) 1 = 7 \<and>
   st_lastRewardDate sevenDayStore \<noteq> Some ''Tue Nov 03 2026'' \<and>
   loadPending (stateAfter [PressPlay 0]) \<and>
   run [Frame, Frame]
       (fire (LoadDone sevenDayStore ''Tue Nov 03 2026'') (stateAfter [PressPlay 0]))
     = Some (stateAfter sevenDayRun) \<and>
   coins (ui (stateAfter sevenDayRun)) = 120 \<and>
   coins (ui (fire PressClaim (stateAfter sevenDayRun))) = 1120 \<and>
   rewardDay (ui (fire PressClaim (stateAfter sevenDayRun))) = 1"
proof -
  have a: "loadData (st_rewardDay sevenDayStore) 1 = 7"
    by (simp add: sevenDayStore_def loadData_def)
  have b: "st_lastRewardDate sevenDayStore \<noteq> Some ''Tue Nov 03 2026''"
    by (simp add: sevenDayStore_def)
  have c: "loadPending (stateAfter [PressPlay 0])" by (simp add: run_eval)
  have d: "\<forall>e\<in>set [Frame, Frame]. e \<noteq> PressClaim" by simp
  have e: "run [Frame, Frame]
               (fire (LoadDone sevenDayStore ''Tue Nov 03 2026'') (stateAfter [PressPlay 0]))
             = Some (stateAfter sevenDayRun)"
    by (simp add: sevenDayRun_def sevenDayStore_def run_eval)
  have f: "coins (ui (stateAfter sevenDayRun)) = 120"
    by (simp add: sevenDayRun_def sevenDayStore_def run_eval)
  from daily_reward_claim[OF _ _ a b c d e] a b c e f show ?thesis
    by (simp add: DAILY_REWARDS_def)
qed

section \<open>The spacing of the apples (C8)\<close>

lemma round64_lastBelowOne: "round64 (lastBelowOne * 120) = nearly120"
  unfolding lastBelowOne_def nearly120_def
  by (subst round64_at[where e = 6]) (simp_all add: roundEven_def)

lemma round64_nearly120:
  "round64 nearly120 = nearly120"
  "round64 (nearly120 + 120) = 240"
  "round64 (nearly120 + 240) = 360"
  unfolding nearly120_def
  by (subst round64_at[where e = 6], simp_all add: roundEven_def)
     (subst round64_at[where e = 7], simp_all add: roundEven_def,
      subst round64_at[where e = 8], simp_all add: roundEven_def)

lemma nearly120_order: "0 \<le> nearly120" "nearly120 < 360" "nearly120 \<le> 240" "\<not> nearly120 \<le> 0"
  by (simp_all add: nearly120_def)

lemma apples_lastBelowOne:
  "map angle (generateApples lastBelowOne 3) = [nearly120, 240, 0]"
  by (simp add: generateApples_def Let_def upt_conv_Cons round64_lastBelowOne
        round64_nearly120 jsmod_small nearly120_order jsmod_once)

text \<open>
  C8, as stated, fails: the angles are computed in binary64. With three apples and the
  random number \<open>1 - 2 ^ (- 53)\<close> the code yields 119.99999999999999, 240 and 0 in this
  order (the last sum rounds to 360 and wraps); sorted, the second angle is less than
  \<open>360 / 3\<close> after the first.
\<close>

theorem apples_not_exactly_spaced:
  "0 \<le> lastBelowOne \<and> lastBelowOne < 1 \<and>
   map angle (generateApples lastBelowOne 3) = [nearly120, 240, 0] \<and>
   sort (map angle (generateApples lastBelowOne 3)) = [0, nearly120, 240] \<and>
   nearly120 - 0 < 360 / 3"
proof -
  have "0 \<le> lastBelowOne \<and> lastBelowOne < 1" by (simp add: lastBelowOne_def)
  moreover have "sort [nearly120, 240, 0] = [0, nearly120, 240]"
    by (simp add: nearly120_order)
  moreover have "nearly120 - 0 < 360 / 3" by (simp add: nearly120_def)
  ultimately show ?thesis by (simp add: apples_lastBelowOne)
qed

text \<open>
  The same at a plain input: with ten apples and the random number 0.3 the first two
  angles are 10.799999999999999 and 46.8, which are \<open>36 - 2 ^ (- 49)\<close> apart.
\<close>

lemma round64_threeTenths: "round64 (threeTenths * 36) = nearly10_8"
  unfolding threeTenths_def nearly10_8_def
  by (subst round64_at[where e = 3]) (simp_all add: roundEven_def)

lemma round64_nearly10_8:
  "round64 nearly10_8 = nearly10_8"
  "round64 (nearly10_8 + 36) = nearly46_8"
  unfolding nearly10_8_def nearly46_8_def
  by (subst round64_at[where e = 3], simp_all add: roundEven_def)
     (subst round64_at[where e = 5], simp_all add: roundEven_def)

lemma apples_threeTenths:
  "take 2 (map angle (generateApples threeTenths 10)) = [nearly10_8, nearly46_8]"
  "nearly46_8 - nearly10_8 = 36 - 1 / 2 ^ 49"
proof -
  have r: "0 \<le> nearly10_8" "nearly10_8 < 360" "0 \<le> nearly46_8" "nearly46_8 < 360"
    by (simp_all add: nearly10_8_def nearly46_8_def)
  show "take 2 (map angle (generateApples threeTenths 10)) = [nearly10_8, nearly46_8]"
    by (simp add: generateApples_def Let_def upt_conv_Cons round64_threeTenths
          round64_nearly10_8 jsmod_small r)
  show "nearly46_8 - nearly10_8 = 36 - 1 / 2 ^ 49"
    by (simp add: nearly10_8_def nearly46_8_def)
qed

text \<open>The angle of the apple of index \<open>i\<close>.\<close>

lemma apple_angle_nth:
  assumes "i < nat n"
  shows "angle (generateApples rnd n ! i) =
           jsmod (round64 (round64 (rnd * round64 (360 / real_of_int n))
                           + round64 (real i * round64 (360 / real_of_int n)))) 360"
  using assms by (simp add: generateApples_def Let_def)

text \<open>
  C8, amended. For a count \<open>n\<close> from 3 to 20 and a random number in \<open>[0, 1)\<close>, that is an
  offset \<open>rnd * (360 / n)\<close> in \<open>[0, 360 / n)\<close>, \<open>generateApples\<close> yields \<open>n\<close> angles, each in
  \<open>[0, 360)\<close>, and the angle of index \<open>i\<close> lies within \<open>2 ^ (- 42)\<close> degrees, around the
  circle, of \<open>offset + i * (360 / n)\<close>, the position of an exactly even spacing. So the
  apples are spaced \<open>360 / n\<close> up to the rounding of binary64, not exactly, and the list
  need not be increasing.
\<close>

theorem apples_spaced_up_to_rounding:
  assumes n: "3 \<le> n" "n \<le> 20" and rnd: "0 \<le> rnd" "rnd < 1" and i: "i < nat n"
  shows "length (generateApples rnd n) = nat n \<and>
         0 \<le> angle (generateApples rnd n ! i) \<and> angle (generateApples rnd n ! i) < 360 \<and>
         angularDistance (angle (generateApples rnd n ! i))
                         ((rnd + real i) * (360 / real_of_int n)) \<le> 1 / 2 ^ 42"
proof -
  define u :: real where "u = 1 / 2 ^ 53"
  have u: "0 < u" "u \<le> 1 / 1000000" by (simp_all add: u_def)
  have err: "\<bar>round64 x - x\<bar> \<le> (\<bar>x\<bar> + 1) * u" for x
    using round64_err[of x] by (simp add: u_def)
  define q where "q = 360 / real_of_int n"
  define s where "s = round64 q"
  define p where "p = rnd * s"
  define off where "off = round64 p"
  define t where "t = round64 (real i * s)"
  define c where "c = round64 (off + t)"
  define ideal where "ideal = (rnd + real i) * q"
  have q: "18 \<le> q" "q \<le> 120" using n by (simp_all add: q_def field_simps)
  have nq: "real_of_int n * q = 360" using n by (simp add: q_def)
  from i n have i': "real i + 1 \<le> real_of_int n" by linarith
  then have "(real i + 1) * q \<le> real_of_int n * q" using q by (intro mult_right_mono) simp_all
  then have iq: "real i * q + q \<le> 360" unfolding nq by (simp add: distrib_right)
  have ideal: "0 \<le> ideal" "ideal < 360"
  proof -
    show "0 \<le> ideal" using rnd q by (simp add: ideal_def)
    have "rnd * q < 1 * q" using rnd q by (intro mult_strict_right_mono) simp_all
    then show "ideal < 360" using iq by (simp add: ideal_def algebra_simps)
  qed
  \<comment> \<open>the step \<open>360 / n\<close>\<close>
  have s0: "0 \<le> s" unfolding s_def using q by (intro round64_nonneg) simp
  have es': "\<bar>s - q\<bar> \<le> (q + 1) * u"
    using err[of q] q unfolding s_def by simp
  have es: "\<bar>s - q\<bar> \<le> 121 * u"
  proof -
    have "(q + 1) * u \<le> 121 * u" using q u by (intro mult_right_mono) simp_all
    with es' show ?thesis by linarith
  qed
  then have s121: "s \<le> 121" using q u by linarith
  \<comment> \<open>the offset\<close>
  have p0: "0 \<le> p" using rnd s0 by (simp add: p_def)
  have ps: "p \<le> s" using rnd s0 by (simp add: p_def mult_left_le_one_le)
  have off0: "0 \<le> off" unfolding off_def using p0 by (rule round64_nonneg)
  have "\<bar>off - p\<bar> \<le> (\<bar>p\<bar> + 1) * u" unfolding off_def by (rule err)
  also have "\<dots> \<le> 122 * u" using p0 ps s121 u by (intro mult_right_mono) simp_all
  finally have e1: "\<bar>off - p\<bar> \<le> 122 * u" .
  have "\<bar>p - rnd * q\<bar> = rnd * \<bar>s - q\<bar>"
    using rnd by (simp add: p_def right_diff_distrib[symmetric] abs_mult)
  also have "\<dots> \<le> 1 * \<bar>s - q\<bar>" using rnd by (intro mult_right_mono) simp_all
  finally have e2: "\<bar>p - rnd * q\<bar> \<le> 121 * u" using es by simp
  from e1 e2 have eoff: "\<bar>off - rnd * q\<bar> \<le> 243 * u" by linarith
  \<comment> \<open>the multiple of the step\<close>
  have is0: "0 \<le> real i * s" using s0 by simp
  have t0: "0 \<le> t" unfolding t_def using is0 by (rule round64_nonneg)
  have "\<bar>real i * s - real i * q\<bar> = real i * \<bar>s - q\<bar>"
    by (simp add: right_diff_distrib[symmetric] abs_mult)
  also have "\<dots> \<le> real i * ((q + 1) * u)" using es' by (intro mult_left_mono) simp_all
  also have "\<dots> = (real i * q + real i) * u" by (simp add: algebra_simps)
  also have "\<dots> \<le> 379 * u"
  proof -
    from i n have "real i \<le> 19" by linarith
    with iq q have "real i * q + real i \<le> 379" by linarith
    then show ?thesis using u by (intro mult_right_mono) simp_all
  qed
  finally have e3: "\<bar>real i * s - real i * q\<bar> \<le> 379 * u" .
  then have is361: "real i * s \<le> 361" using iq q u by linarith
  have "\<bar>t - real i * s\<bar> \<le> (\<bar>real i * s\<bar> + 1) * u" unfolding t_def by (rule err)
  also have "\<dots> \<le> 362 * u" using is0 is361 u by (intro mult_right_mono) simp_all
  finally have e4: "\<bar>t - real i * s\<bar> \<le> 362 * u" .
  from e3 e4 have et: "\<bar>t - real i * q\<bar> \<le> 741 * u" by linarith
  \<comment> \<open>the sum\<close>
  have id: "ideal = rnd * q + real i * q" by (simp add: ideal_def algebra_simps)
  from eoff et have esum: "\<bar>off + t - ideal\<bar> \<le> 984 * u" unfolding id by linarith
  then have sum361: "off + t \<le> 361" using ideal u by linarith
  have sum0: "0 \<le> off + t" using off0 t0 by simp
  have c0: "0 \<le> c" unfolding c_def using sum0 by (rule round64_nonneg)
  have "\<bar>c - (off + t)\<bar> \<le> (\<bar>off + t\<bar> + 1) * u" unfolding c_def by (rule err)
  also have "\<dots> \<le> 362 * u" using sum0 sum361 u by (intro mult_right_mono) simp_all
  finally have e5: "\<bar>c - (off + t)\<bar> \<le> 362 * u" .
  have "1346 * u \<le> 1 / 2 ^ 42" by (simp add: u_def)
  with e5 esum have ec: "\<bar>c - ideal\<bar> \<le> 1 / 2 ^ 42" by linarith
  have small: "(1::real) / 2 ^ 42 \<le> 1" by simp
  \<comment> \<open>the remainder\<close>
  have A: "angle (generateApples rnd n ! i) = jsmod c 360"
    unfolding apple_angle_nth[OF i] c_def off_def t_def p_def s_def q_def ..
  from jsmod_range[OF c0, of 360] have rng: "0 \<le> jsmod c 360" "jsmod c 360 < 360" by simp_all
  have "angularDistance (jsmod c 360) ideal \<le> 1 / 2 ^ 42"
  proof (cases "c < 360")
    case True
    with c0 have "jsmod c 360 = c" by (rule jsmod_small)
    with ec show ?thesis by (simp add: angularDistance_def min_def)
  next
    case False
    then have "360 \<le> c" by simp
    moreover have "c < 2 * 360" using ec ideal small by linarith
    ultimately have "jsmod c 360 = c - 360" by (intro jsmod_once) simp_all
    with ec ideal \<open>360 \<le> c\<close> small show ?thesis
      by (simp add: angularDistance_def min_def)
  qed
  moreover have "length (generateApples rnd n) = nat n"
    by (simp add: generateApples_def Let_def)
  ultimately show ?thesis using rng unfolding A ideal_def q_def by simp
qed

theorem apples_spaced_up_to_rounding_witness:
  "(3::int) \<le> 3 \<and> (3::int) \<le> 20 \<and> 0 \<le> lastBelowOne \<and> lastBelowOne < 1 \<and> (2::nat) < nat 3 \<and>
   length (generateApples lastBelowOne 3) = 3 \<and>
   angle (generateApples lastBelowOne 3 ! 2) = 0 \<and>
   angularDistance 0 ((lastBelowOne + 2) * (360 / 3)) \<le> 1 / 2 ^ 42"
proof -
  have r: "0 \<le> lastBelowOne" "lastBelowOne < 1" by (simp_all add: lastBelowOne_def)
  have "angle (generateApples lastBelowOne 3 ! 2) = map angle (generateApples lastBelowOne 3) ! 2"
    by (simp add: generateApples_def Let_def)
  then have a: "angle (generateApples lastBelowOne 3 ! 2) = 0"
    by (simp add: apples_lastBelowOne)
  from apples_spaced_up_to_rounding[of 3 lastBelowOne 2] r a show ?thesis by simp
qed

section \<open>A win with eleven knives (C2)\<close>

lemma raceTrace_result:
  "\<exists>s. run raceTrace initialSys = Some s \<and> gameState (ui s) = Win \<and> stage (ui s) = 3 \<and>
       \<not> isBossLevel (ui s) \<and> currentBoss (ui s) = None \<and>
       length (stuckKnives (ui s)) = 11 \<and>
       hasUsedContinue (ui s) \<and> length (winTimers s) = 1"
  by (simp add: raceTrace_def tenThrows_def eightThrows_def quietStore_def run_eval)

text \<open>
  C2 does not hold of the code. The run \<open>raceTrace\<close> ends in the phase win on stage 3,
  a stage without boss and with ten knives to stick, and the ledger holds eleven
  knives. \<open>throwKnife\<close> clears \<open>isThrowing\<close> when the fly animation completes but sets the
  phase to win only 100 ms later, in a timer; when a continue has left knives over, a
  tap in between is accepted.
\<close>

theorem win_with_eleven_knives:
  "run raceTrace initialSys = Some (stateAfter raceTrace) \<and>
   gameState (ui (stateAfter raceTrace)) = Win \<and>
   stage (ui (stateAfter raceTrace)) = 3 \<and>
   totalKnives (isBossLevel (ui (stateAfter raceTrace)))
               (currentBoss (ui (stateAfter raceTrace))) = 10 \<and>
   length (stuckKnives (ui (stateAfter raceTrace))) = 11"
proof -
  from raceTrace_result obtain s where r: "run raceTrace initialSys = Some s"
    and s: "gameState (ui s) = Win" "stage (ui s) = 3" "currentBoss (ui s) = None"
      "length (stuckKnives (ui s)) = 11"
    by blast
  from r have "stateAfter raceTrace = s" by (simp add: stateAfter_def)
  with r s show ?thesis by (simp add: totalKnives_def BASE_KNIVES_def)
qed

subsection \<open>Without that tap the claim holds\<close>

lemma isThrowing_highScoreEffect [simp]: "isThrowing (highScoreEffect g) = isThrowing g"
  by (simp add: highScoreEffect_def)

lemma viewOf_fire:
  "viewOf (fire e s) =
    \<lparr>v_phase = gameState (ui (handle e s)), v_stuck = stuckKnives (ui (handle e s)),
     v_throwing = isThrowing (ui (handle e s)), v_isBoss = isBossLevel (ui (handle e s)),
     v_boss = currentBoss (ui (handle e s)), v_flights = flights (handle e s),
     v_timers = winTimers (handle e s)\<rparr>"
  by (simp add: viewOf_def)

lemma view_unchanged:
  assumes "enabled e s"
    and "(\<exists>st today. e = LoadDone st today) \<or> e = PressClaim \<or> e = Frame \<or> e = PopupHide \<or>
         (\<exists>a. e = ExplosionEnd a)"
  shows "viewOf (fire e s) = viewOf s"
  using assms
  by (auto simp: viewOf_fire viewOf_def loadSavedData_def claimDailyReward_def showCoinGain_def
        rotationLoop_def removeExplosion_def Let_def split: option.splits if_splits)

lemma getBossForStage_1: "getBossForStage 1 = None"
  by (simp add: getBossForStage_def BOSSES_def)

lemma view_start:
  "viewOf (fire (PressPlay rnd) s) = (viewOf s)\<lparr>v_phase := Playing, v_stuck := [],
      v_throwing := False, v_isBoss := False, v_boss := None\<rparr>"
  "viewOf (fire (PressRestart rnd) s) = (viewOf s)\<lparr>v_phase := Playing, v_stuck := [],
      v_throwing := False, v_isBoss := False, v_boss := None\<rparr>"
  by (simp_all add: viewOf_fire viewOf_def initGame_def restartGame_def getBossForStage_1)

lemma view_next:
  "viewOf (fire (PressNext rnd) s) =
    (case getBossForStage (stage (ui s) + 1) of
       None \<Rightarrow> (viewOf s)\<lparr>v_phase := Playing, v_stuck := [], v_throwing := False,
                            v_isBoss := False, v_boss := None\<rparr>
     | Some boss \<Rightarrow> (viewOf s)\<lparr>v_phase := Boss_intro, v_isBoss := True, v_boss := Some boss\<rparr>)"
  "viewOf (fire (PressDouble rnd) s) =
    (case getBossForStage (stage (ui s) + 1) of
       None \<Rightarrow> (viewOf s)\<lparr>v_phase := Playing, v_stuck := [], v_throwing := False,
                            v_isBoss := False, v_boss := None\<rparr>
     | Some boss \<Rightarrow> (viewOf s)\<lparr>v_phase := Boss_intro, v_isBoss := True, v_boss := Some boss\<rparr>)"
  by (simp_all add: viewOf_fire viewOf_def initGame_def nextStage_def watchAdDouble_def
        showCoinGain_def Let_def split: option.splits)

lemma view_fight:
  "viewOf (fire (PressFight rnd) s) =
    (case currentBoss (ui s) of
       None \<Rightarrow> viewOf s
     | Some boss \<Rightarrow> (viewOf s)\<lparr>v_phase := Playing, v_stuck := [], v_throwing := False\<rparr>)"
  by (simp add: viewOf_fire viewOf_def startBossLevel_def split: option.splits)

lemma view_continue:
  "viewOf (fire PressContinue s) = (viewOf s)\<lparr>v_phase := Playing\<rparr>"
  by (simp add: viewOf_fire viewOf_def watchAdContinue_def)

lemma view_tap:
  "viewOf (fire Tap s) =
    (if gameState (ui s) \<noteq> Playing \<or> knivesLeft (ui s) \<le> 0 \<or> isThrowing (ui s) then viewOf s
     else (viewOf s)\<lparr>v_throwing := True,
            v_flights := flights s @
              [\<lparr>fl_stuckKnives = stuckKnives (ui s), fl_apples = apples (ui s),
                fl_isBossLevel = isBossLevel (ui s), fl_currentBoss = currentBoss (ui s),
                fl_hitAngle = jsmod (180 - rotationRef (ui s) + 360) 360\<rparr>]\<rparr>)"
  by (simp add: viewOf_fire viewOf_def throwKnife_def)

lemma view_flightEnd:
  "viewOf (fire (FlightEnd i) s) =
    (let fl = flights s ! i in
     if knifeCollision (fl_stuckKnives fl) (fl_hitAngle fl)
     then (viewOf s)\<lparr>v_phase := Failed, v_throwing := False,
                      v_flights := dropNth i (flights s)\<rparr>
     else (viewOf s)\<lparr>v_stuck := fl_stuckKnives fl @ [fl_hitAngle fl], v_throwing := False,
            v_flights := dropNth i (flights s),
            v_timers := winTimers s @
              (if totalKnives (fl_isBossLevel fl) (fl_currentBoss fl)
                    \<le> int (length (fl_stuckKnives fl)) + 1
               then [\<lparr>wt_isBossLevel = fl_isBossLevel fl, wt_currentBoss = fl_currentBoss fl\<rparr>]
               else [])\<rparr>)"
  by (simp add: viewOf_fire viewOf_def onFlightEnd_def Let_def showCoinGain_def)

lemma view_winTimeout:
  "viewOf (fire (WinTimeout i) s) =
     (viewOf s)\<lparr>v_phase := Win, v_timers := dropNth i (winTimers s)\<rparr>"
  by (simp add: viewOf_fire viewOf_def onWinTimer_def Let_def showCoinGain_def)

lemma boss_knives_pos: "boss \<in> set BOSSES \<Longrightarrow> 0 < boss_knives boss"
  by (auto simp: BOSSES_def)

lemma totalKnives_pos: "bossKnown b \<Longrightarrow> 0 < totalKnives isBoss b"
  by (auto simp: totalKnives_def bossKnown_def BASE_KNIVES_def boss_knives_pos
        split: option.splits)

lemma totalKnives_None [simp]: "totalKnives isBoss None = 10"
  by (simp add: totalKnives_def BASE_KNIVES_def)

lemma bossKnown_None [simp]: "bossKnown None"
  by (simp add: bossKnown_def)

lemma dropNth_single [simp]: "dropNth 0 [x] = []"
  by (simp add: dropNth_def)

lemma roundOk_fire:
  assumes ok: "roundOk (viewOf s)" and en: "enabled e s"
    and tap: "e = Tap \<longrightarrow> winTimers s = []"
  shows "roundOk (viewOf (fire e s))"
proof (cases e)
  case (LoadDone st today)
  with en have "viewOf (fire e s) = viewOf s" by (intro view_unchanged) auto
  with ok show ?thesis by simp
next
  case PressClaim
  with en have "viewOf (fire e s) = viewOf s" by (intro view_unchanged) auto
  with ok show ?thesis by simp
next
  case Frame
  with en have "viewOf (fire e s) = viewOf s" by (intro view_unchanged) auto
  with ok show ?thesis by simp
next
  case PopupHide
  with en have "viewOf (fire e s) = viewOf s" by (intro view_unchanged) auto
  with ok show ?thesis by simp
next
  case (ExplosionEnd a)
  with en have "viewOf (fire e s) = viewOf s" by (intro view_unchanged) auto
  with ok show ?thesis by simp
next
  case (PressPlay rnd)
  from en ok have "flights s = []" "winTimers s = []"
    unfolding PressPlay by (auto simp: roundOk_def viewOf_def Let_def)
  then show ?thesis
    unfolding PressPlay view_start by (simp add: roundOk_def viewOf_def)
next
  case (PressRestart rnd)
  from en ok have "flights s = []" "winTimers s = []"
    unfolding PressRestart by (auto simp: roundOk_def viewOf_def Let_def)
  then show ?thesis
    unfolding PressRestart view_start by (simp add: roundOk_def viewOf_def)
next
  case (PressNext rnd)
  from en ok have idle: "flights s = []" "winTimers s = []"
    unfolding PressNext by (auto simp: roundOk_def viewOf_def Let_def)
  show ?thesis
  proof (cases "getBossForStage (stage (ui s) + 1)")
    case None
    with idle show ?thesis
      unfolding PressNext view_next by (simp add: roundOk_def viewOf_def)
  next
    case (Some boss)
    then have "bossKnown (Some boss)" by (simp add: bossKnown_def getBossForStage_known)
    with Some idle show ?thesis
      unfolding PressNext view_next by (simp add: roundOk_def viewOf_def)
  qed
next
  case (PressDouble rnd)
  from en ok have idle: "flights s = []" "winTimers s = []"
    unfolding PressDouble by (auto simp: roundOk_def viewOf_def Let_def)
  show ?thesis
  proof (cases "getBossForStage (stage (ui s) + 1)")
    case None
    with idle show ?thesis
      unfolding PressDouble view_next by (simp add: roundOk_def viewOf_def)
  next
    case (Some boss)
    then have "bossKnown (Some boss)" by (simp add: bossKnown_def getBossForStage_known)
    with Some idle show ?thesis
      unfolding PressDouble view_next by (simp add: roundOk_def viewOf_def)
  qed
next
  case (PressFight rnd)
  from en ok have idle: "flights s = []" "winTimers s = []"
    and known: "bossKnown (currentBoss (ui s))"
    unfolding PressFight by (auto simp: roundOk_def viewOf_def Let_def)
  from en obtain boss where boss: "currentBoss (ui s) = Some boss"
    unfolding PressFight by auto
  from totalKnives_pos[OF known] boss idle known show ?thesis
    unfolding PressFight view_fight by (simp add: roundOk_def viewOf_def)
next
  case PressContinue
  from en ok have idle: "flights s = []" "winTimers s = []"
    unfolding PressContinue by (auto simp: roundOk_def viewOf_def Let_def)
  from en have "gameState (ui s) = Failed" unfolding PressContinue by simp
  with ok idle show ?thesis
    unfolding PressContinue view_continue by (simp add: roundOk_def viewOf_def Let_def)
next
  case Tap
  with tap have wt: "winTimers s = []" by simp
  show ?thesis
  proof (cases "gameState (ui s) \<noteq> Playing \<or> knivesLeft (ui s) \<le> 0 \<or> isThrowing (ui s)")
    case True
    with ok show ?thesis unfolding Tap view_tap by simp
  next
    case False
    with ok have fl: "flights s = []"
      by (cases "flights s") (auto simp: roundOk_def viewOf_def Let_def)
    from False fl wt ok show ?thesis
      unfolding Tap view_tap by (simp add: roundOk_def viewOf_def Let_def)
  qed
next
  case (FlightEnd i)
  from en ok obtain fl where fl: "flights s = [fl]" and i: "i = 0"
    unfolding FlightEnd
    by (cases "flights s") (auto simp: roundOk_def viewOf_def Let_def)
  from ok fl have wt: "winTimers s = []" by (simp add: roundOk_def viewOf_def Let_def)
  from ok fl have a: "gameState (ui s) = Playing"
    "int (length (stuckKnives (ui s))) < totalKnives (isBossLevel (ui s)) (currentBoss (ui s))"
    "fl_stuckKnives fl = stuckKnives (ui s)" "fl_isBossLevel fl = isBossLevel (ui s)"
    "fl_currentBoss fl = currentBoss (ui s)" "bossKnown (currentBoss (ui s))"
    by (simp_all add: roundOk_def viewOf_def Let_def)
  show ?thesis
    unfolding FlightEnd i view_flightEnd using fl wt a
    by (simp add: roundOk_def viewOf_def Let_def)
next
  case (WinTimeout i)
  from en ok obtain wt where wt: "winTimers s = [wt]" and i: "i = 0"
    unfolding WinTimeout
    by (cases "winTimers s") (auto simp: roundOk_def viewOf_def Let_def)
  from ok wt have "flights s = []" by (simp add: roundOk_def viewOf_def Let_def)
  with ok wt show ?thesis
    unfolding WinTimeout i view_winTimeout by (simp add: roundOk_def viewOf_def Let_def)
qed

lemma runOrderly_invariant:
  assumes "P s"
    and "\<And>e t. P t \<Longrightarrow> enabled e t \<Longrightarrow> (e = Tap \<longrightarrow> winTimers t = []) \<Longrightarrow> P (fire e t)"
    and "runOrderly es s = Some s'"
  shows "P s'"
  using assms(1,3)
proof (induction es arbitrary: s)
  case Nil
  then show ?case by simp
next
  case (Cons e es)
  from Cons.prems(2) have en: "enabled e s" "e = Tap \<longrightarrow> winTimers s = []"
    and r: "runOrderly es (fire e s) = Some s'"
    by (auto split: if_splits)
  from assms(2)[OF Cons.prems(1) en] r show ?case by (rule Cons.IH)
qed

text \<open>
  What is left of C2: in the runs in which no tap is handled while a win timer is
  pending, a state in the phase win has exactly as many stuck knives as the budget of
  its stage, with or without a continue on the way.
\<close>

lemma win_means_budget_reached_when_orderly:
  assumes "runOrderly es initialSys = Some s" and "gameState (ui s) = Win"
  shows "int (length (stuckKnives (ui s)))
           = totalKnives (isBossLevel (ui s)) (currentBoss (ui s))"
proof -
  have "roundOk (viewOf initialSys)"
    by (simp add: roundOk_def viewOf_def initialSys_def initialGame_def)
  then have "roundOk (viewOf s)"
    using roundOk_fire assms(1) by (rule runOrderly_invariant)
  with assms(2) show ?thesis by (simp add: roundOk_def viewOf_def Let_def)
qed

end
